theory Spec2Isabelle
  imports Main "HOL-Library.Word"
begin

section \<open>Data model\<close>

text \<open>
  The two cache classes of the repository, \<open>LRUCache\<close> (in the header that declares
  \<open>LRUCleanable\<close> and \<open>LRUCacheElement\<close>) and \<open>LRUCacheSizeOrder\<close> (lru_size_order.h),
  embedded as state-passing functions: an operation takes the state of the cache and
  returns the new state and the objects whose \<open>cleanup()\<close> it has called, in call order.

  \<^item> \<open>int64_t\<close>, \<open>size_t\<close> and \<open>time_t\<close> are 64-bit words: \<open>+\<close> and \<open>-\<close> wrap around
    (also where the source computes on \<open>int64_t\<close>, whose overflow C++ leaves undefined),
    \<open>\<le>\<close> and \<open><\<close> compare unsigned, \<open>\<le>s\<close> and \<open><s\<close> compare signed.
  \<^item> The template parameter \<open>PK\<close> is taken as \<open>int64_t\<close>, the type that \<open>SizePKPair\<close>
    stores the primary key in.
  \<^item> A \<open>shared_ptr<LRUCacheElement>\<close> is an address into an explicit store of elements
    (\<open>elements\<close>); the list, the key map and the size-ordered map hold addresses, so a
    change made through one of them is seen through the others, as in the source.
    Elements are never freed in the model; \<open>allocated\<close> is the next fresh address.
  \<^item> A list iterator names the list node that holds an element's address; erasing through
    the iterator is \<open>remove1\<close> of that address.
  \<^item> The owner's object behind a \<open>weak_ptr\<close> is an object identity; whether \<open>lock()\<close>
    succeeds is the parameter \<open>alive\<close> of the operation that calls it.
  \<^item> \<open>std::time(nullptr)\<close> is the parameter \<open>now\<close> of the operation that reads the clock.
\<close>

type_synonym int64 = "64 word"
type_synonym PK = "64 word"
type_synonym obj = nat
type_synonym addr = nat

text \<open>
  Modelled from the spec: the field behind \<open>getMarkSizeWiseCleanup\<close> and
  \<open>setMarkSizeWiseCleanup\<close>, which lru_size_order.h calls and whose declaration is not
  among the sources. It is the spec's \<open>pending_size_eviction: bool\<close>, "true once this
  element has been reclassified into size-ordered eviction; false otherwise".
  \<open>getAccessTime\<close>, missing in the same way, reads \<open>mLastAccessTime\<close>.
\<close>

record LRUCacheElement =
  mLastAccessTime :: int64
  mSize :: int64
  mWeakPointerElement :: obj
  mPrimaryKey :: PK
  markSizeWiseCleanup :: bool

definition new_LRUCacheElement :: "obj \<Rightarrow> PK \<Rightarrow> LRUCacheElement" where
  "new_LRUCacheElement element primaryKey =
     \<lparr>mLastAccessTime = 0, mSize = 0, mWeakPointerElement = element,
      mPrimaryKey = primaryKey, markSizeWiseCleanup = False\<rparr>"

record SizePKPair =
  nSize :: int64
  nPrimaryKey :: int64

definition CompareSizePKPair :: "SizePKPair \<Rightarrow> SizePKPair \<Rightarrow> bool" where
  "CompareSizePKPair x y =
     (if nSize y <s nSize x then True
      else if nSize x = nSize y then nPrimaryKey x <s nPrimaryKey y
      else False)"

text \<open>
  \<open>std::map<SizePKPair, iterator, CompareSizePKPair>\<close> as the list of its entries in
  iteration order. \<open>insert\<close> leaves the map alone when an equivalent key is present;
  \<open>erase(key)\<close> removes the entry with an equivalent key.
\<close>

type_synonym sizeOrderMap = "(SizePKPair \<times> addr) list"

fun sizeOrder_insert :: "SizePKPair \<times> addr \<Rightarrow> sizeOrderMap \<Rightarrow> sizeOrderMap" where
  "sizeOrder_insert e [] = [e]"
| "sizeOrder_insert e (f # fs) =
     (if CompareSizePKPair (fst e) (fst f) then e # f # fs
      else if CompareSizePKPair (fst f) (fst e) then f # sizeOrder_insert e fs
      else f # fs)"

fun sizeOrder_erase :: "SizePKPair \<Rightarrow> sizeOrderMap \<Rightarrow> sizeOrderMap" where
  "sizeOrder_erase k [] = []"
| "sizeOrder_erase k (f # fs) =
     (if \<not> CompareSizePKPair k (fst f) \<and> \<not> CompareSizePKPair (fst f) k then fs
      else f # sizeOrder_erase k fs)"

text \<open>
  The state of a \<open>LRUCacheSizeOrder\<close>: the store of elements and the fields of the class,
  named as in the source without the leading underscore. \<open>CleanerThread\<close> and
  \<open>ThresholdThread\<close> say whether the constructor has started the thread.
\<close>

record LRUCacheSizeOrder =
  elements :: "addr \<Rightarrow> LRUCacheElement"
  allocated :: addr
  listOfElements :: "addr list"
  mapOfPKWithElement :: "PK \<rightharpoonup> addr"
  nTotalSizeOfCache :: int64
  nSoftLimitInBytes :: int64
  nHardLimitInBytes :: int64
  nThresholdInSec :: int64
  nCleanScheduleInSec :: int64
  CleanerThread :: bool
  ThresholdThread :: bool
  mapOfElementsOrderSize :: sizeOrderMap

section \<open>LRUCacheSizeOrder\<close>

text \<open>The constructor: it stores the limits as given and starts each thread iff its
  interval is not zero. It has no other branch.\<close>

definition new_LRUCacheSizeOrder :: "int64 \<Rightarrow> int64 \<Rightarrow> int64 \<Rightarrow> int64 \<Rightarrow> LRUCacheSizeOrder" where
  "new_LRUCacheSizeOrder maxSizeSoft maxSizeHard thresholdInSec cleanScheduleMs =
     \<lparr>elements = (\<lambda>_. new_LRUCacheElement 0 0),
      allocated = 0,
      listOfElements = [],
      mapOfPKWithElement = Map.empty,
      nTotalSizeOfCache = 0,
      nSoftLimitInBytes = maxSizeSoft,
      nHardLimitInBytes = maxSizeHard,
      nThresholdInSec = thresholdInSec,
      nCleanScheduleInSec = cleanScheduleMs,
      CleanerThread = (cleanScheduleMs \<noteq> 0),
      ThresholdThread = (thresholdInSec \<noteq> 0),
      mapOfElementsOrderSize = []\<rparr>"

definition removeSizeWiseMarker :: "addr \<Rightarrow> LRUCacheSizeOrder \<Rightarrow> LRUCacheSizeOrder" where
  "removeSizeWiseMarker a c =
     (let e = elements c a in
      c\<lparr>elements := (elements c)(a := e\<lparr>markSizeWiseCleanup := False\<rparr>),
        mapOfElementsOrderSize :=
          sizeOrder_erase \<lparr>nSize = mSize e, nPrimaryKey = mPrimaryKey e\<rparr>
            (mapOfElementsOrderSize c)\<rparr>)"

text \<open>The first half of the locked block of \<open>updateElement\<close>: find the element of the key,
  or create it and put it into the key map; an element found is taken out of the list and
  its size out of the total.\<close>

definition findOrCreate :: "obj \<Rightarrow> PK \<Rightarrow> LRUCacheSizeOrder \<Rightarrow> addr \<times> LRUCacheSizeOrder" where
  "findOrCreate element key c =
     (case mapOfPKWithElement c key of
        None \<Rightarrow>
          (allocated c,
           c\<lparr>elements := (elements c)(allocated c := new_LRUCacheElement element key),
             allocated := Suc (allocated c),
             mapOfPKWithElement := (mapOfPKWithElement c)(key \<mapsto> allocated c)\<rparr>)
      | Some a \<Rightarrow>
          (a,
           c\<lparr>listOfElements := remove1 a (listOfElements c),
             nTotalSizeOfCache := nTotalSizeOfCache c - mSize (elements c a)\<rparr>))"

text \<open>The locked block of \<open>updateElement\<close> (the inner braces).\<close>

definition updateElement_locked ::
  "int64 \<Rightarrow> obj \<Rightarrow> PK \<Rightarrow> int64 \<Rightarrow> LRUCacheSizeOrder \<Rightarrow> LRUCacheSizeOrder" where
  "updateElement_locked now element key sz c =
     (let (a, c1) = findOrCreate element key c;
          c2 = removeSizeWiseMarker a c1;
          c3 = c2\<lparr>elements := (elements c2)(a := (elements c2 a)\<lparr>mSize := sz\<rparr>)\<rparr>;
          c4 = c3\<lparr>nTotalSizeOfCache := nTotalSizeOfCache c3 + sz\<rparr>;
          c5 = c4\<lparr>elements := (elements c4)(a := (elements c4 a)\<lparr>mLastAccessTime := now\<rparr>)\<rparr>
      in c5\<lparr>listOfElements := listOfElements c5 @ [a]\<rparr>)"

text \<open>Phase 1 of \<open>cleanup\<close>: the loop over the size-ordered map. It reads the element
  behind each entry's iterator, and changes the total and \<open>toClean\<close> only.\<close>

fun drainSizeOrder ::
  "(obj \<Rightarrow> bool) \<Rightarrow> (addr \<Rightarrow> LRUCacheElement) \<Rightarrow> sizeOrderMap \<Rightarrow> int64 \<Rightarrow> obj list
     \<Rightarrow> int64 \<times> obj list" where
  "drainSizeOrder alive h [] tot toClean = (tot, toClean)"
| "drainSizeOrder alive h (el # els) tot toClean =
     drainSizeOrder alive h els (tot - mSize (h (snd el)))
       (if alive (mWeakPointerElement (h (snd el)))
        then toClean @ [mWeakPointerElement (h (snd el))] else toClean)"

text \<open>Phase 2 of \<open>cleanup\<close>: the while loop over the list. Each round pops the front and
  erases its key from the key map before it looks at the marker and the protected key.\<close>

fun purgeList ::
  "(obj \<Rightarrow> bool) \<Rightarrow> PK option \<Rightarrow> (addr \<Rightarrow> LRUCacheElement) \<Rightarrow> int64 \<Rightarrow> addr list
     \<Rightarrow> (PK \<rightharpoonup> addr) \<Rightarrow> int64 \<Rightarrow> obj list
     \<Rightarrow> addr list \<times> (PK \<rightharpoonup> addr) \<times> int64 \<times> obj list" where
  "purgeList alive keyToSaveFromPurge h soft [] m tot toClean = ([], m, tot, toClean)"
| "purgeList alive keyToSaveFromPurge h soft (el # rest) m tot toClean =
     (if soft <s tot then
        (if \<not> markSizeWiseCleanup (h el)
            \<and> (keyToSaveFromPurge = None \<or> keyToSaveFromPurge \<noteq> Some (mPrimaryKey (h el)))
         then purgeList alive keyToSaveFromPurge h soft rest (m(mPrimaryKey (h el) := None))
                (tot - mSize (h el))
                (if alive (mWeakPointerElement (h el))
                 then toClean @ [mWeakPointerElement (h el)] else toClean)
         else purgeList alive keyToSaveFromPurge h soft rest (m(mPrimaryKey (h el) := None))
                tot toClean)
      else (el # rest, m, tot, toClean))"

text \<open>\<open>cleanup\<close> returns the new state and \<open>toClean\<close>, the objects whose \<open>cleanup()\<close> it
  calls at its end, in call order.\<close>

definition cleanup ::
  "(obj \<Rightarrow> bool) \<Rightarrow> PK option \<Rightarrow> LRUCacheSizeOrder \<Rightarrow> LRUCacheSizeOrder \<times> obj list" where
  "cleanup alive keyToSaveFromPurge c =
     (let (tot1, toClean1) =
            (if mapOfElementsOrderSize c \<noteq> []
             then drainSizeOrder alive (elements c) (mapOfElementsOrderSize c)
                    (nTotalSizeOfCache c) []
             else (nTotalSizeOfCache c, []));
          (l, m, tot2, toClean2) =
            purgeList alive keyToSaveFromPurge (elements c) (nSoftLimitInBytes c)
              (listOfElements c) (mapOfPKWithElement c) tot1 toClean1
      in (c\<lparr>listOfElements := l, mapOfPKWithElement := m, nTotalSizeOfCache := tot2,
            mapOfElementsOrderSize := []\<rparr>, toClean2))"

text \<open>\<open>updateElement\<close>: the parameter \<open>size\<close> (here \<open>sz\<close>) is a \<open>size_t\<close>, so the guard
  \<open>size <= _nHardLimitInBytes\<close> compares unsigned; the check after the locked block compares
  two \<open>int64_t\<close>.\<close>

definition updateElement ::
  "(obj \<Rightarrow> bool) \<Rightarrow> int64 \<Rightarrow> obj \<Rightarrow> PK \<Rightarrow> int64 \<Rightarrow> LRUCacheSizeOrder
     \<Rightarrow> LRUCacheSizeOrder \<times> obj list" where
  "updateElement alive now element key sz c =
     (if sz \<le> nHardLimitInBytes c then
        (let c' = updateElement_locked now element key sz c in
         if nHardLimitInBytes c' <s nTotalSizeOfCache c'
         then cleanup alive (Some key) c'
         else (c', []))
      else (c, []))"

text \<open>The loop of \<open>checkAccessTime\<close> over the list, oldest first.\<close>

fun checkAccessLoop ::
  "int64 \<Rightarrow> int64 \<Rightarrow> addr list \<Rightarrow> (addr \<Rightarrow> LRUCacheElement) \<Rightarrow> sizeOrderMap
     \<Rightarrow> (addr \<Rightarrow> LRUCacheElement) \<times> sizeOrderMap" where
  "checkAccessLoop currentTime threshold [] h sm = (h, sm)"
| "checkAccessLoop currentTime threshold (oldestElement # rest) h sm =
     (if \<not> markSizeWiseCleanup (h oldestElement) then
        (if threshold \<le>s currentTime - mLastAccessTime (h oldestElement) + 1 then
           checkAccessLoop currentTime threshold rest
             (h(oldestElement := (h oldestElement)\<lparr>markSizeWiseCleanup := True\<rparr>))
             (sizeOrder_insert
                (\<lparr>nSize = mSize (h oldestElement), nPrimaryKey = mPrimaryKey (h oldestElement)\<rparr>,
                 oldestElement) sm)
         else (h, sm))
      else checkAccessLoop currentTime threshold rest h sm)"

definition checkAccessTime :: "int64 \<Rightarrow> LRUCacheSizeOrder \<Rightarrow> LRUCacheSizeOrder" where
  "checkAccessTime currentTime c =
     (if listOfElements c \<noteq> [] then
        (let (h, sm) = checkAccessLoop currentTime (nThresholdInSec c) (listOfElements c)
                         (elements c) (mapOfElementsOrderSize c)
         in c\<lparr>elements := h, mapOfElementsOrderSize := sm\<rparr>)
      else c)"

text \<open>
  Where the mutex is held. In \<open>LRUCacheSizeOrder::cleanup\<close> the \<open>lock_guard\<close> is declared
  in the outermost block of the function, so it is released when the function returns,
  after the final loop that calls \<open>cleanup()\<close> on \<open>toClean\<close>.
\<close>

datatype event = Lock | Unlock | CallCleanup obj

definition cleanup_events :: "(obj \<Rightarrow> bool) \<Rightarrow> PK option \<Rightarrow> LRUCacheSizeOrder \<Rightarrow> event list" where
  "cleanup_events alive keyToSaveFromPurge c =
     [Lock] @ map CallCleanup (snd (cleanup alive keyToSaveFromPurge c)) @ [Unlock]"

text \<open>
  What can happen to a cache object after its construction. \<open>updateElement\<close> and \<open>cleanup\<close>
  are public. \<open>checkAccessTime\<close> is protected and called by \<open>thresholdChecker\<close> only, the
  body of the threshold thread; \<open>loopCleaner\<close> is the body of the cleaner thread. A thread
  that the constructor did not start never times out. \<open>removeSizeWiseMarker\<close> is called by
  \<open>updateElement\<close> only. The steps are the sections under the mutex: \<open>UpdateLocked\<close> is an
  \<open>updateElement\<close> whose check of the hard limit, made after the mutex is released, comes
  after further steps of other threads; \<open>Update\<close> is one that no other thread interrupts.
\<close>

datatype operation =
    Update "obj \<Rightarrow> bool" int64 obj PK int64
  | UpdateLocked int64 obj PK int64
  | Cleanup "obj \<Rightarrow> bool" "PK option"
  | CleanerTimeout "obj \<Rightarrow> bool"
  | ThresholdTimeout int64

fun exec :: "operation \<Rightarrow> LRUCacheSizeOrder \<Rightarrow> LRUCacheSizeOrder \<times> obj list" where
  "exec (Update alive now element key sz) c = updateElement alive now element key sz c"
| "exec (UpdateLocked now element key sz) c =
     (if sz \<le> nHardLimitInBytes c then (updateElement_locked now element key sz c, [])
      else (c, []))"
| "exec (Cleanup alive keyToSaveFromPurge) c = cleanup alive keyToSaveFromPurge c"
| "exec (CleanerTimeout alive) c =
     (if CleanerThread c then cleanup alive None c else (c, []))"
| "exec (ThresholdTimeout now) c =
     (if ThresholdThread c then (checkAccessTime now c, []) else (c, []))"

definition run :: "operation list \<Rightarrow> LRUCacheSizeOrder \<Rightarrow> LRUCacheSizeOrder" where
  "run ops c = foldl (\<lambda>c' op. fst (exec op c')) c ops"

text \<open>The sum of the sizes of the elements at the given addresses, in \<open>int64_t\<close>
  arithmetic, and the sum over the elements that the cache tracks.\<close>

definition sizeOf :: "(addr \<Rightarrow> LRUCacheElement) \<Rightarrow> addr list \<Rightarrow> int64" where
  "sizeOf h as = sum_list (map (\<lambda>a. mSize (h a)) as)"

definition trackedSize :: "LRUCacheSizeOrder \<Rightarrow> int64" where
  "trackedSize c = sizeOf (elements c) (listOfElements c)"

section \<open>LRUCache\<close>

record LRUCache =
  lruElements :: "addr \<Rightarrow> LRUCacheElement"
  lruAllocated :: addr
  mListOfElements :: "addr list"
  mMapOfElements :: "PK \<rightharpoonup> addr"
  mTotalSize :: int64
  mMaxSizeSoft :: int64
  mMaxSizeHard :: int64
  mCleanScheduleMs :: int64
  mCleanerThread :: bool

definition new_LRUCache :: "int64 \<Rightarrow> int64 \<Rightarrow> int64 \<Rightarrow> LRUCache" where
  "new_LRUCache maxSizeSoft maxSizeHard cleanScheduleMs =
     \<lparr>lruElements = (\<lambda>_. new_LRUCacheElement 0 0),
      lruAllocated = 0,
      mListOfElements = [],
      mMapOfElements = Map.empty,
      mTotalSize = 0,
      mMaxSizeSoft = maxSizeSoft,
      mMaxSizeHard = maxSizeHard,
      mCleanScheduleMs = cleanScheduleMs,
      mCleanerThread = (cleanScheduleMs \<noteq> 0)\<rparr>"

text \<open>The while loop of \<open>LRUCache::cleanup\<close>.\<close>

fun lruPurgeList ::
  "(obj \<Rightarrow> bool) \<Rightarrow> PK option \<Rightarrow> (addr \<Rightarrow> LRUCacheElement) \<Rightarrow> int64 \<Rightarrow> addr list
     \<Rightarrow> (PK \<rightharpoonup> addr) \<Rightarrow> int64 \<Rightarrow> obj list
     \<Rightarrow> addr list \<times> (PK \<rightharpoonup> addr) \<times> int64 \<times> obj list" where
  "lruPurgeList alive keyToSaveFromPurge h soft [] m tot toClean = ([], m, tot, toClean)"
| "lruPurgeList alive keyToSaveFromPurge h soft (el # rest) m tot toClean =
     (if soft <s tot then
        (if keyToSaveFromPurge = None \<or> keyToSaveFromPurge \<noteq> Some (mPrimaryKey (h el))
         then lruPurgeList alive keyToSaveFromPurge h soft rest (m(mPrimaryKey (h el) := None))
                (tot - mSize (h el))
                (if alive (mWeakPointerElement (h el))
                 then toClean @ [mWeakPointerElement (h el)] else toClean)
         else lruPurgeList alive keyToSaveFromPurge h soft rest (m(mPrimaryKey (h el) := None))
                tot toClean)
      else (el # rest, m, tot, toClean))"

definition lruCleanup :: "(obj \<Rightarrow> bool) \<Rightarrow> PK option \<Rightarrow> LRUCache \<Rightarrow> LRUCache \<times> obj list" where
  "lruCleanup alive keyToSaveFromPurge c =
     (let (l, m, tot, toClean) =
            lruPurgeList alive keyToSaveFromPurge (lruElements c) (mMaxSizeSoft c)
              (mListOfElements c) (mMapOfElements c) (mTotalSize c) []
      in (c\<lparr>mListOfElements := l, mMapOfElements := m, mTotalSize := tot\<rparr>, toClean))"

text \<open>In \<open>LRUCache::cleanup\<close> the \<open>lock_guard\<close> lives in an inner block that is closed
  before the loop that calls \<open>cleanup()\<close>.\<close>

definition lruCleanup_events :: "(obj \<Rightarrow> bool) \<Rightarrow> PK option \<Rightarrow> LRUCache \<Rightarrow> event list" where
  "lruCleanup_events alive keyToSaveFromPurge c =
     [Lock, Unlock] @ map CallCleanup (snd (lruCleanup alive keyToSaveFromPurge c))"

definition lruUpdateElement_locked :: "int64 \<Rightarrow> obj \<Rightarrow> PK \<Rightarrow> int64 \<Rightarrow> LRUCache \<Rightarrow> LRUCache" where
  "lruUpdateElement_locked now element key sz c =
     (let (a, c1) =
            (case mMapOfElements c key of
               None \<Rightarrow>
                 (lruAllocated c,
                  c\<lparr>lruElements := (lruElements c)(lruAllocated c := new_LRUCacheElement element key),
                    lruAllocated := Suc (lruAllocated c),
                    mMapOfElements := (mMapOfElements c)(key \<mapsto> lruAllocated c)\<rparr>)
             | Some a \<Rightarrow>
                 (a,
                  c\<lparr>mListOfElements := remove1 a (mListOfElements c),
                    mTotalSize := mTotalSize c - mSize (lruElements c a)\<rparr>));
          c2 = c1\<lparr>lruElements := (lruElements c1)(a := (lruElements c1 a)\<lparr>mSize := sz\<rparr>)\<rparr>;
          c3 = c2\<lparr>mTotalSize := mTotalSize c2 + sz\<rparr>;
          c4 = c3\<lparr>lruElements := (lruElements c3)(a := (lruElements c3 a)\<lparr>mLastAccessTime := now\<rparr>)\<rparr>
      in c4\<lparr>mListOfElements := mListOfElements c4 @ [a]\<rparr>)"

definition lruUpdateElement ::
  "(obj \<Rightarrow> bool) \<Rightarrow> int64 \<Rightarrow> obj \<Rightarrow> PK \<Rightarrow> int64 \<Rightarrow> LRUCache \<Rightarrow> LRUCache \<times> obj list" where
  "lruUpdateElement alive now element key sz c =
     (let c' = lruUpdateElement_locked now element key sz c in
      if mMaxSizeHard c' <s mTotalSize c'
      then lruCleanup alive (Some key) c'
      else (c', []))"

text \<open>\<open>LRUCache::removeElement\<close>. Like every operation here it returns the new state and
  the objects whose \<open>cleanup()\<close> it calls; its body calls none.\<close>

definition removeElement :: "PK \<Rightarrow> LRUCache \<Rightarrow> LRUCache \<times> obj list" where
  "removeElement key c =
     (case mMapOfElements c key of
        None \<Rightarrow> (c, [])
      | Some a \<Rightarrow>
          (c\<lparr>mListOfElements := remove1 a (mListOfElements c),
             mTotalSize := mTotalSize c - mSize (lruElements c a),
             mMapOfElements := (mMapOfElements c)(key := None)\<rparr>, []))"

definition lruTrackedSize :: "LRUCache \<Rightarrow> int64" where
  "lruTrackedSize c = sizeOf (lruElements c) (mListOfElements c)"

text \<open>
  The calls that reach a \<open>LRUCache\<close>: the three public functions, the locked block of
  \<open>updateElement\<close> alone (the state another thread can see before the eviction), and a
  timeout of the cleaner thread, which exists iff the constructor started it. \<open>lruRun\<close>
  performs a list of them, one after the other.
\<close>

datatype lruOperation =
    LruUpdate "obj \<Rightarrow> bool" int64 obj PK int64
  | LruUpdateLocked int64 obj PK int64
  | LruRemove PK
  | LruCleanup "obj \<Rightarrow> bool" "PK option"
  | LruCleanerTimeout "obj \<Rightarrow> bool"

fun lruExec :: "lruOperation \<Rightarrow> LRUCache \<Rightarrow> LRUCache \<times> obj list" where
  "lruExec (LruUpdate alive now element key sz) c = lruUpdateElement alive now element key sz c"
| "lruExec (LruUpdateLocked now element key sz) c =
     (lruUpdateElement_locked now element key sz c, [])"
| "lruExec (LruRemove key) c = removeElement key c"
| "lruExec (LruCleanup alive keyToSaveFromPurge) c = lruCleanup alive keyToSaveFromPurge c"
| "lruExec (LruCleanerTimeout alive) c =
     (if mCleanerThread c then lruCleanup alive None c else (c, []))"

definition lruRun :: "lruOperation list \<Rightarrow> LRUCache \<Rightarrow> LRUCache" where
  "lruRun ops c = foldl (\<lambda>c' op. fst (lruExec op c')) c ops"

section \<open>Notions used in the statements\<close>

text \<open>
  The consistency of the three containers. The key map sends a key to an address exactly
  when that address is in the list and its element has the key. The size-ordered map is in
  the order of \<open>CompareSizePKPair\<close>, and each of its entries points into the list, is keyed
  by the current size and key of its element, and its element carries the marker.
\<close>

definition keyMapOK :: "(addr \<Rightarrow> LRUCacheElement) \<Rightarrow> addr list \<Rightarrow> (PK \<rightharpoonup> addr) \<Rightarrow> bool" where
  "keyMapOK h l m = (\<forall>k a. (m k = Some a) = (a \<in> set l \<and> mPrimaryKey (h a) = k))"

definition entryOf :: "(addr \<Rightarrow> LRUCacheElement) \<Rightarrow> addr \<Rightarrow> SizePKPair \<times> addr" where
  "entryOf h a = (\<lparr>nSize = mSize (h a), nPrimaryKey = mPrimaryKey (h a)\<rparr>, a)"

definition entryOK :: "(addr \<Rightarrow> LRUCacheElement) \<Rightarrow> addr list \<Rightarrow> SizePKPair \<times> addr \<Rightarrow> bool" where
  "entryOK h l e =
     (snd e \<in> set l
      \<and> fst e = \<lparr>nSize = mSize (h (snd e)), nPrimaryKey = mPrimaryKey (h (snd e))\<rparr>
      \<and> markSizeWiseCleanup (h (snd e)))"

definition sizeOrderOK :: "(addr \<Rightarrow> LRUCacheElement) \<Rightarrow> addr list \<Rightarrow> sizeOrderMap \<Rightarrow> bool" where
  "sizeOrderOK h l sm =
     (sorted_wrt CompareSizePKPair (map fst sm) \<and> (\<forall>e\<in>set sm. entryOK h l e))"

definition cache_inv :: "LRUCacheSizeOrder \<Rightarrow> bool" where
  "cache_inv c =
     (distinct (listOfElements c)
      \<and> (\<forall>a\<in>set (listOfElements c). a < allocated c)
      \<and> keyMapOK (elements c) (listOfElements c) (mapOfPKWithElement c)
      \<and> sizeOrderOK (elements c) (listOfElements c) (mapOfElementsOrderSize c))"

text \<open>The same consistency for the list and the key map of a \<open>LRUCache\<close>.\<close>

definition lru_inv :: "LRUCache \<Rightarrow> bool" where
  "lru_inv c =
     (distinct (mListOfElements c)
      \<and> (\<forall>a\<in>set (mListOfElements c). a < lruAllocated c)
      \<and> keyMapOK (lruElements c) (mListOfElements c) (mMapOfElements c))"

text \<open>The test of \<open>checkAccessTime\<close> under which its scan goes on past an element: the
  element is marked already, or its age plus one has reached the threshold.\<close>

definition staleOrMarked :: "int64 \<Rightarrow> int64 \<Rightarrow> (addr \<Rightarrow> LRUCacheElement) \<Rightarrow> addr \<Rightarrow> bool" where
  "staleOrMarked now thr h a =
     (markSizeWiseCleanup (h a) \<or> thr \<le>s now - mLastAccessTime (h a) + 1)"

text \<open>The size-ordered map after the entries of the given elements were inserted, one
  after the other.\<close>

definition insertMarked :: "(addr \<Rightarrow> LRUCacheElement) \<Rightarrow> addr list \<Rightarrow> sizeOrderMap \<Rightarrow> sizeOrderMap" where
  "insertMarked h as sm = foldl (\<lambda>s a. sizeOrder_insert (entryOf h a) s) sm as"

text \<open>The objects, in order, of those of the given elements whose weak pointer locks.\<close>

definition lockable :: "(obj \<Rightarrow> bool) \<Rightarrow> (addr \<Rightarrow> LRUCacheElement) \<Rightarrow> addr list \<Rightarrow> obj list" where
  "lockable alive h as =
     map (\<lambda>a. mWeakPointerElement (h a)) (filter (\<lambda>a. alive (mWeakPointerElement (h a))) as)"

text \<open>The elements that a round of the while loop of \<open>cleanup\<close> queues and takes out of
  the total: those without the marker whose key is not the protected one.\<close>

definition purgeable :: "PK option \<Rightarrow> (addr \<Rightarrow> LRUCacheElement) \<Rightarrow> addr \<Rightarrow> bool" where
  "purgeable keyToSaveFromPurge h a =
     (\<not> markSizeWiseCleanup (h a) \<and> keyToSaveFromPurge \<noteq> Some (mPrimaryKey (h a)))"

text \<open>The \<open>LRUCache\<close> with the same fields as a \<open>LRUCacheSizeOrder\<close>, the size-ordered map
  and the threshold left out.\<close>

definition asLRUCache :: "LRUCacheSizeOrder \<Rightarrow> LRUCache" where
  "asLRUCache c =
     \<lparr>lruElements = elements c,
      lruAllocated = allocated c,
      mListOfElements = listOfElements c,
      mMapOfElements = mapOfPKWithElement c,
      mTotalSize = nTotalSizeOfCache c,
      mMaxSizeSoft = nSoftLimitInBytes c,
      mMaxSizeHard = nHardLimitInBytes c,
      mCleanScheduleMs = nCleanScheduleInSec c,
      mCleanerThread = CleanerThread c\<rparr>"

section \<open>Example runs\<close>

text \<open>Concrete runs on which the operations are evaluated. The objects are 101, 102, ...,
  and their owners keep them alive unless a statement says otherwise.\<close>

text \<open>Key 1 with size 10, limits 20 and 40.\<close>

definition ex_one_key :: LRUCacheSizeOrder where
  "ex_one_key =
     run [Update (\<lambda>_. True) 1 101 1 10]
       (new_LRUCacheSizeOrder 20 40 0 0)"

text \<open>Keys 1, 2, 3 with size 10 each, limits 20 and 40.\<close>

definition ex_three_keys :: LRUCacheSizeOrder where
  "ex_three_keys =
     run [Update (\<lambda>_. True) 1 101 1 10,
        Update (\<lambda>_. True) 2 102 2 10,
        Update (\<lambda>_. True) 3 103 3 10]
       (new_LRUCacheSizeOrder 20 40 0 0)"

text \<open>Key 1 accessed at time 1 and key 2 at time 4, threshold 5.\<close>

definition ex_two_ages :: LRUCacheSizeOrder where
  "ex_two_ages =
     run [Update (\<lambda>_. True) 1 101 1 30,
        Update (\<lambda>_. True) 4 102 2 20]
       (new_LRUCacheSizeOrder 100 150 5 10)"

text \<open>Key 1 with size 10, marked by the sweep at time 9.\<close>

definition ex_marked :: LRUCacheSizeOrder where
  "ex_marked =
     run [Update (\<lambda>_. True) 1 101 1 10,
        ThresholdTimeout 9]
       (new_LRUCacheSizeOrder 20 40 5 0)"

text \<open>Keys 1, 2, 3 marked by the sweep at time 10, keys 4 and 5 fresh, soft limit 50.\<close>

definition ex_hybrid :: LRUCacheSizeOrder where
  "ex_hybrid =
     run [Update (\<lambda>_. True) 1 101 1 30,
        Update (\<lambda>_. True) 2 102 2 20,
        Update (\<lambda>_. True) 3 103 3 40,
        ThresholdTimeout 10,
        Update (\<lambda>_. True) 11 104 4 60,
        Update (\<lambda>_. True) 12 105 5 10]
       (new_LRUCacheSizeOrder 50 1000 5 10)"

text \<open>The pure LRU scenario: threshold 0, keys 1, 2, 3, a timeout of the cleaner thread,
  key 4, key 2 again, key 5.\<close>

definition ex_pure_lru :: LRUCacheSizeOrder where
  "ex_pure_lru =
     run [Update (\<lambda>_. True) 1 101 1 10,
        Update (\<lambda>_. True) 2 102 2 10,
        Update (\<lambda>_. True) 3 103 3 10,
        CleanerTimeout (\<lambda>_. True),
        Update (\<lambda>_. True) 4 104 4 10,
        Update (\<lambda>_. True) 5 102 2 10,
        Update (\<lambda>_. True) 6 105 5 10]
       (new_LRUCacheSizeOrder 20 40 0 1)"

text \<open>Key 1 with size 10, then key 2 with size 40, limits 20 and 40.\<close>

definition ex_protected :: LRUCacheSizeOrder where
  "ex_protected =
     run [Update (\<lambda>_. True) 1 101 1 10,
        Update (\<lambda>_. True) 2 102 2 40]
       (new_LRUCacheSizeOrder 20 40 0 0)"

text \<open>Key 1 with size 30 at time 1, the sweep at time 5, then cleanup.\<close>

definition ex_drained :: LRUCacheSizeOrder where
  "ex_drained =
     run [Update (\<lambda>_. True) 1 101 1 30,
        ThresholdTimeout 5,
        Cleanup (\<lambda>_. True) None]
       (new_LRUCacheSizeOrder 100 150 5 0)"

text \<open>A \<open>LRUCache\<close> with key 1 of size 10, limits 20 and 40.\<close>

definition ex_lru_one_key :: LRUCache where
  "ex_lru_one_key = lruRun [LruUpdate (\<lambda>_. True) 1 101 1 10] (new_LRUCache 20 40 0)"

text \<open>A new size-order cache with the soft limit 100 and the hard limit \<open>-1\<close>.\<close>

definition ex_negative_hard :: LRUCacheSizeOrder where
  "ex_negative_hard = run [] (new_LRUCacheSizeOrder 100 (- 1) 0 0)"

section \<open>The size-ordered map\<close>

lemma Compare_irrefl: "\<not> CompareSizePKPair x x"
  by (simp add: CompareSizePKPair_def)

lemma Compare_trans:
  "CompareSizePKPair x y \<Longrightarrow> CompareSizePKPair y z \<Longrightarrow> CompareSizePKPair x z"
  by (auto simp: CompareSizePKPair_def split: if_splits)

lemma Compare_total:
  "\<not> CompareSizePKPair x y \<Longrightarrow> \<not> CompareSizePKPair y x \<Longrightarrow> x = y"
  by (cases x; cases y) (auto simp: CompareSizePKPair_def split: if_splits)

lemma Compare_equiv: "(\<not> CompareSizePKPair x y \<and> \<not> CompareSizePKPair y x) = (x = y)"
  using Compare_total Compare_irrefl by blast

lemma set_sizeOrder_insert_sub: "set (sizeOrder_insert e sm) \<subseteq> insert e (set sm)"
  by (induction sm) auto

lemma set_sizeOrder_insert_new:
  "\<forall>f\<in>set sm. fst f \<noteq> fst e \<Longrightarrow> set (sizeOrder_insert e sm) = insert e (set sm)"
  by (induction sm) (auto simp: Compare_equiv dest: Compare_total)

lemma sorted_sizeOrder_insert:
  "sorted_wrt CompareSizePKPair (map fst sm)
   \<Longrightarrow> sorted_wrt CompareSizePKPair (map fst (sizeOrder_insert e sm))"
proof (induction sm)
  case Nil
  then show ?case by simp
next
  case (Cons f fs)
  have sub: "set (sizeOrder_insert e fs) \<subseteq> insert e (set fs)"
    by (rule set_sizeOrder_insert_sub)
  show ?case
  proof (cases "CompareSizePKPair (fst e) (fst f)")
    case True
    with Cons.prems show ?thesis by (auto intro: Compare_trans)
  next
    case False
    with Cons sub show ?thesis by auto
  qed
qed

lemma set_sizeOrder_erase:
  "sorted_wrt CompareSizePKPair (map fst sm)
   \<Longrightarrow> set (sizeOrder_erase k sm) = {f \<in> set sm. fst f \<noteq> k}"
proof (induction sm)
  case Nil
  then show ?case by simp
next
  case (Cons f fs)
  show ?case
  proof (cases "fst f = k")
    case True
    have "\<forall>g\<in>set fs. fst g \<noteq> k"
      using Cons.prems True Compare_irrefl by auto
    with True show ?thesis by (auto simp: Compare_irrefl)
  next
    case False
    with Cons show ?thesis by (auto simp: Compare_equiv)
  qed
qed

lemma sorted_sizeOrder_erase:
  "sorted_wrt CompareSizePKPair (map fst sm)
   \<Longrightarrow> sorted_wrt CompareSizePKPair (map fst (sizeOrder_erase k sm))"
proof (induction sm)
  case Nil
  then show ?case by simp
next
  case (Cons f fs)
  then have "set (sizeOrder_erase k fs) \<subseteq> set fs"
    by (simp add: set_sizeOrder_erase)
  with Cons show ?case by auto
qed

section \<open>The containers stay consistent\<close>

lemma updateElement_locked_new:
  "mapOfPKWithElement c key = None \<Longrightarrow>
   updateElement_locked now element key sz c =
     c\<lparr>elements := (elements c)(allocated c :=
          \<lparr>mLastAccessTime = now, mSize = sz, mWeakPointerElement = element,
           mPrimaryKey = key, markSizeWiseCleanup = False\<rparr>),
       allocated := Suc (allocated c),
       listOfElements := listOfElements c @ [allocated c],
       mapOfPKWithElement := (mapOfPKWithElement c)(key \<mapsto> allocated c),
       nTotalSizeOfCache := nTotalSizeOfCache c + sz,
       mapOfElementsOrderSize :=
         sizeOrder_erase \<lparr>nSize = 0, nPrimaryKey = key\<rparr> (mapOfElementsOrderSize c)\<rparr>"
  by (simp add: updateElement_locked_def findOrCreate_def removeSizeWiseMarker_def
      new_LRUCacheElement_def Let_def)

lemma updateElement_locked_found:
  "mapOfPKWithElement c key = Some a \<Longrightarrow>
   updateElement_locked now element key sz c =
     c\<lparr>mapOfElementsOrderSize :=
         sizeOrder_erase \<lparr>nSize = mSize (elements c a), nPrimaryKey = mPrimaryKey (elements c a)\<rparr>
           (mapOfElementsOrderSize c),
       nTotalSizeOfCache := nTotalSizeOfCache c - mSize (elements c a) + sz,
       elements := (elements c)(a :=
          (elements c a)\<lparr>markSizeWiseCleanup := False, mSize := sz, mLastAccessTime := now\<rparr>),
       listOfElements := remove1 a (listOfElements c) @ [a]\<rparr>"
  by (simp add: updateElement_locked_def findOrCreate_def removeSizeWiseMarker_def Let_def)

lemma keyMapOK_inj:
  "keyMapOK h l m \<Longrightarrow> a \<in> set l \<Longrightarrow> b \<in> set l \<Longrightarrow> mPrimaryKey (h a) = mPrimaryKey (h b)
   \<Longrightarrow> a = b"
  unfolding keyMapOK_def by (metis option.inject)

lemma cache_inv_updateElement_locked:
  assumes inv: "cache_inv c"
  shows "cache_inv (updateElement_locked now element key sz c)"
proof (cases "mapOfPKWithElement c key")
  case None
  let ?a = "allocated c"
  let ?c' = "updateElement_locked now element key sz c"
  from inv have fresh: "?a \<notin> set (listOfElements c)"
    by (auto simp: cache_inv_def)
  from inv have km: "keyMapOK (elements c) (listOfElements c) (mapOfPKWithElement c)"
    by (simp add: cache_inv_def)
  have nokey: "mPrimaryKey (elements c b) \<noteq> key" if "b \<in> set (listOfElements c)" for b
    using km None that unfolding keyMapOK_def by (metis option.distinct(1))
  from inv have so: "sizeOrderOK (elements c) (listOfElements c) (mapOfElementsOrderSize c)"
    by (simp add: cache_inv_def)
  have l: "listOfElements ?c' = listOfElements c @ [?a]"
    and al: "allocated ?c' = Suc ?a"
    and h: "elements ?c' = (elements c)(?a :=
          \<lparr>mLastAccessTime = now, mSize = sz, mWeakPointerElement = element,
           mPrimaryKey = key, markSizeWiseCleanup = False\<rparr>)"
    and m: "mapOfPKWithElement ?c' = (mapOfPKWithElement c)(key \<mapsto> ?a)"
    and sm: "mapOfElementsOrderSize ?c' =
         sizeOrder_erase \<lparr>nSize = 0, nPrimaryKey = key\<rparr> (mapOfElementsOrderSize c)"
    by (simp_all add: updateElement_locked_new [OF None])
  have 1: "distinct (listOfElements ?c')"
    using inv fresh by (simp add: l cache_inv_def)
  have 2: "\<forall>a\<in>set (listOfElements ?c'). a < allocated ?c'"
    using inv by (auto simp: l al cache_inv_def)
  have 3: "keyMapOK (elements ?c') (listOfElements ?c') (mapOfPKWithElement ?c')"
    unfolding l h m keyMapOK_def
  proof (intro allI)
    fix k b
    show "(((mapOfPKWithElement c)(key \<mapsto> ?a)) k = Some b) =
          (b \<in> set (listOfElements c @ [?a]) \<and>
           mPrimaryKey (((elements c)(?a := \<lparr>mLastAccessTime = now, mSize = sz,
             mWeakPointerElement = element, mPrimaryKey = key,
             markSizeWiseCleanup = False\<rparr>)) b) = k)"
      using km fresh nokey [of b] unfolding keyMapOK_def by (cases "b = ?a") auto
  qed
  have 4: "sizeOrderOK (elements ?c') (listOfElements ?c') (mapOfElementsOrderSize ?c')"
    using so fresh unfolding l h sm sizeOrderOK_def entryOK_def
    by (auto simp: sorted_sizeOrder_erase set_sizeOrder_erase)
  from 1 2 3 4 show ?thesis by (simp add: cache_inv_def)
next
  case (Some a)
  let ?c' = "updateElement_locked now element key sz c"
  let ?k0 = "\<lparr>nSize = mSize (elements c a), nPrimaryKey = mPrimaryKey (elements c a)\<rparr>"
  from inv have km: "keyMapOK (elements c) (listOfElements c) (mapOfPKWithElement c)"
    by (simp add: cache_inv_def)
  from km Some have ain: "a \<in> set (listOfElements c)"
    by (simp add: keyMapOK_def)
  from inv have so: "sizeOrderOK (elements c) (listOfElements c) (mapOfElementsOrderSize c)"
    by (simp add: cache_inv_def)
  from inv have d: "distinct (listOfElements c)"
    by (simp add: cache_inv_def)
  have l: "listOfElements ?c' = remove1 a (listOfElements c) @ [a]"
    and al: "allocated ?c' = allocated c"
    and h: "elements ?c' = (elements c)(a :=
          (elements c a)\<lparr>markSizeWiseCleanup := False, mSize := sz, mLastAccessTime := now\<rparr>)"
    and m: "mapOfPKWithElement ?c' = mapOfPKWithElement c"
    and sm: "mapOfElementsOrderSize ?c' = sizeOrder_erase ?k0 (mapOfElementsOrderSize c)"
    by (simp_all add: updateElement_locked_found [OF Some])
  have sl: "set (listOfElements ?c') = set (listOfElements c)"
    using ain d by (auto simp: l)
  have 1: "distinct (listOfElements ?c')"
    using d by (simp add: l)
  have 2: "\<forall>a\<in>set (listOfElements ?c'). a < allocated ?c'"
    using inv unfolding sl al by (simp add: cache_inv_def)
  have 3: "keyMapOK (elements ?c') (listOfElements ?c') (mapOfPKWithElement ?c')"
    using km unfolding keyMapOK_def sl m h by simp
  have 4: "sizeOrderOK (elements ?c') (listOfElements ?c') (mapOfElementsOrderSize ?c')"
    using so unfolding sizeOrderOK_def entryOK_def sl sm h
    by (auto simp: sorted_sizeOrder_erase set_sizeOrder_erase)
  from 1 2 3 4 show ?thesis by (simp add: cache_inv_def)
qed

lemma purgeList_suffix:
  "purgeList alive k h soft l m tot q = (l', m', tot', q')
   \<Longrightarrow> \<exists>pre. l = pre @ l'
         \<and> m' = (\<lambda>x. if x \<in> (\<lambda>a. mPrimaryKey (h a)) ` set pre then None else m x)"
proof (induction l arbitrary: m tot q)
  case Nil
  then show ?case by auto
next
  case (Cons el rest)
  show ?case
  proof (cases "soft <s tot")
    case False
    with Cons.prems show ?thesis by auto
  next
    case True
    let ?m1 = "m(mPrimaryKey (h el) := None)"
    from Cons.prems True obtain tot1 q1 where
      "purgeList alive k h soft rest ?m1 tot1 q1 = (l', m', tot', q')"
      by (auto split: if_splits)
    from Cons.IH [OF this] obtain pre where
      p: "rest = pre @ l'"
      "m' = (\<lambda>x. if x \<in> (\<lambda>a. mPrimaryKey (h a)) ` set pre then None else ?m1 x)"
      by blast
    have "el # rest = (el # pre) @ l'" using p by simp
    moreover have
      "m' = (\<lambda>x. if x \<in> (\<lambda>a. mPrimaryKey (h a)) ` set (el # pre) then None else m x)"
      using p(2) by auto
    ultimately show ?thesis by blast
  qed
qed

lemma keyMapOK_suffix:
  assumes "keyMapOK h (pre @ l) m" "distinct (pre @ l)"
  shows "keyMapOK h l (\<lambda>x. if x \<in> (\<lambda>a. mPrimaryKey (h a)) ` set pre then None else m x)"
  unfolding keyMapOK_def
proof (intro allI)
  fix k a
  show "((if k \<in> (\<lambda>a. mPrimaryKey (h a)) ` set pre then None else m k) = Some a) =
        (a \<in> set l \<and> mPrimaryKey (h a) = k)"
  proof (cases "k \<in> (\<lambda>a. mPrimaryKey (h a)) ` set pre")
    case True
    then obtain b where b: "b \<in> set pre" "mPrimaryKey (h b) = k" by auto
    have "\<not> (a \<in> set l \<and> mPrimaryKey (h a) = k)"
    proof
      assume "a \<in> set l \<and> mPrimaryKey (h a) = k"
      then have "a = b"
        using keyMapOK_inj [OF assms(1), of a b] b by auto
      with \<open>a \<in> set l \<and> mPrimaryKey (h a) = k\<close> b assms(2) show False by auto
    qed
    with True show ?thesis by simp
  next
    case False
    then have "a \<in> set pre \<Longrightarrow> mPrimaryKey (h a) \<noteq> k" by auto
    with False assms(1) show ?thesis unfolding keyMapOK_def by auto
  qed
qed

lemma cache_inv_cleanup:
  assumes inv: "cache_inv c"
  shows "cache_inv (fst (cleanup alive k c))"
proof -
  obtain tot1 q1 where
    d: "(if mapOfElementsOrderSize c \<noteq> []
         then drainSizeOrder alive (elements c) (mapOfElementsOrderSize c) (nTotalSizeOfCache c) []
         else (nTotalSizeOfCache c, [])) = (tot1, q1)"
    by fastforce
  obtain l' m' tot' q' where
    p: "purgeList alive k (elements c) (nSoftLimitInBytes c) (listOfElements c)
          (mapOfPKWithElement c) tot1 q1 = (l', m', tot', q')"
    using prod_cases4 by blast
  have r: "fst (cleanup alive k c) =
        c\<lparr>listOfElements := l', mapOfPKWithElement := m', nTotalSizeOfCache := tot',
          mapOfElementsOrderSize := []\<rparr>"
    unfolding cleanup_def d using p by simp
  from purgeList_suffix [OF p] obtain pre where
    pre: "listOfElements c = pre @ l'"
    "m' = (\<lambda>x. if x \<in> (\<lambda>a. mPrimaryKey (elements c a)) ` set pre then None
               else mapOfPKWithElement c x)"
    by blast
  have km: "keyMapOK (elements c) l' m'"
    unfolding pre(2) using inv keyMapOK_suffix [of "elements c" pre l' "mapOfPKWithElement c"]
    by (simp add: cache_inv_def pre(1))
  show ?thesis
    unfolding r using inv km by (auto simp: cache_inv_def pre(1) sizeOrderOK_def)
qed

lemma cache_inv_updateElement:
  "cache_inv c \<Longrightarrow> cache_inv (fst (updateElement alive now element key sz c))"
  by (simp add: updateElement_def Let_def cache_inv_updateElement_locked cache_inv_cleanup)

lemma mark_True_idem: "markSizeWiseCleanup e \<Longrightarrow> e\<lparr>markSizeWiseCleanup := True\<rparr> = e"
  by (cases e) simp

lemma insertMarked_cong:
  "(\<And>a. a \<in> set as \<Longrightarrow> h1 a = h2 a) \<Longrightarrow> insertMarked h1 as sm = insertMarked h2 as sm"
  unfolding insertMarked_def by (induction as arbitrary: sm) (auto simp: entryOf_def)

lemma checkAccessLoop_closed:
  assumes "distinct l"
  shows "checkAccessLoop now thr l h sm =
    ((\<lambda>x. if x \<in> set (takeWhile (staleOrMarked now thr h) l)
          then (h x)\<lparr>markSizeWiseCleanup := True\<rparr> else h x),
     insertMarked h (filter (\<lambda>a. \<not> markSizeWiseCleanup (h a))
       (takeWhile (staleOrMarked now thr h) l)) sm)"
  using assms
proof (induction l arbitrary: h sm)
  case Nil
  then show ?case by (simp add: insertMarked_def)
next
  case (Cons a rest)
  from Cons.prems have d: "distinct rest" and a: "a \<notin> set rest" by auto
  show ?case
  proof (cases "markSizeWiseCleanup (h a)")
    case True
    then have s: "staleOrMarked now thr h a" by (simp add: staleOrMarked_def)
    show ?thesis
      using True s Cons.IH [OF d, of h sm] by (auto simp: mark_True_idem fun_eq_iff)
  next
    case False
    show ?thesis
    proof (cases "thr \<le>s now - mLastAccessTime (h a) + 1")
      case fresh: False
      with False show ?thesis by (simp add: staleOrMarked_def insertMarked_def)
    next
      case stale: True
      let ?h1 = "h(a := (h a)\<lparr>markSizeWiseCleanup := True\<rparr>)"
      let ?e = "(\<lparr>nSize = mSize (h a), nPrimaryKey = mPrimaryKey (h a)\<rparr>, a)"
      have same: "?h1 x = h x" if "x \<in> set rest" for x using that a by auto
      have tw: "takeWhile (staleOrMarked now thr ?h1) rest = takeWhile (staleOrMarked now thr h) rest"
        by (rule takeWhile_cong) (use a in \<open>auto simp: staleOrMarked_def\<close>)
      have fl: "filter (\<lambda>a. \<not> markSizeWiseCleanup (?h1 a)) (takeWhile (staleOrMarked now thr h) rest)
              = filter (\<lambda>a. \<not> markSizeWiseCleanup (h a)) (takeWhile (staleOrMarked now thr h) rest)"
        by (rule filter_cong) (use a in \<open>auto dest: set_takeWhileD\<close>)
      have im: "insertMarked ?h1 xs s = insertMarked h xs s" if "set xs \<subseteq> set rest" for xs s
        by (rule insertMarked_cong) (use that a in auto)
      have sub: "set (filter (\<lambda>a. \<not> markSizeWiseCleanup (h a)) (takeWhile (staleOrMarked now thr h) rest)) \<subseteq> set rest"
        by (auto dest: set_takeWhileD)
      have step: "checkAccessLoop now thr (a # rest) h sm =
            checkAccessLoop now thr rest ?h1 (sizeOrder_insert ?e sm)"
        using False stale by simp
      have s: "staleOrMarked now thr h a" using stale by (simp add: staleOrMarked_def)
      show ?thesis
        unfolding step Cons.IH [OF d] tw fl im [OF sub]
        using s False a
        by (auto simp: fun_eq_iff insertMarked_def entryOf_def dest: set_takeWhileD)
    qed
  qed
qed

lemma insertMarked_Cons:
  "insertMarked h (a # as) sm = insertMarked h as (sizeOrder_insert (entryOf h a) sm)"
  by (simp add: insertMarked_def)

lemma insertMarked_set:
  assumes "keyMapOK h l m" "distinct as" "set as \<subseteq> set l"
    "sorted_wrt CompareSizePKPair (map fst sm)"
    "\<forall>e\<in>set sm. snd e \<in> set l \<and> e = entryOf h (snd e) \<and> snd e \<notin> set as"
  shows "set (insertMarked h as sm) = set sm \<union> entryOf h ` set as
         \<and> sorted_wrt CompareSizePKPair (map fst (insertMarked h as sm))"
  using assms(2-)
proof (induction as arbitrary: sm)
  case Nil
  then show ?case by (simp add: insertMarked_def)
next
  case (Cons a as)
  let ?sm1 = "sizeOrder_insert (entryOf h a) sm"
  have new: "\<forall>f\<in>set sm. fst f \<noteq> fst (entryOf h a)"
  proof
    fix f assume f: "f \<in> set sm"
    show "fst f \<noteq> fst (entryOf h a)"
    proof
      assume eq: "fst f = fst (entryOf h a)"
      from Cons.prems(4) f have fl: "snd f \<in> set l" and fe: "f = entryOf h (snd f)"
        and fn: "snd f \<notin> set (a # as)" by auto
      from eq fe have "mPrimaryKey (h (snd f)) = mPrimaryKey (h a)"
        by (metis SizePKPair.select_convs(2) entryOf_def fst_conv)
      with keyMapOK_inj [OF assms(1) fl, of a] Cons.prems(2) have "snd f = a" by auto
      with fn show False by simp
    qed
  qed
  have s1: "set ?sm1 = insert (entryOf h a) (set sm)"
    by (rule set_sizeOrder_insert_new [OF new])
  have "set (insertMarked h as ?sm1) = set ?sm1 \<union> entryOf h ` set as
        \<and> sorted_wrt CompareSizePKPair (map fst (insertMarked h as ?sm1))"
  proof (rule Cons.IH)
    show "distinct as" using Cons.prems(1) by simp
    show "set as \<subseteq> set l" using Cons.prems(2) by simp
    show "sorted_wrt CompareSizePKPair (map fst ?sm1)"
      by (rule sorted_sizeOrder_insert [OF Cons.prems(3)])
    show "\<forall>e\<in>set ?sm1. snd e \<in> set l \<and> e = entryOf h (snd e) \<and> snd e \<notin> set as"
      using Cons.prems(1,2,4) unfolding s1 by (auto simp: entryOf_def)
  qed
  then show ?case unfolding insertMarked_Cons s1 by auto
qed

lemma checkAccessTime_closed:
  assumes "distinct (listOfElements c)"
  shows "checkAccessTime now c =
     c\<lparr>elements := (\<lambda>x. if x \<in> set (takeWhile (staleOrMarked now (nThresholdInSec c) (elements c))
                                   (listOfElements c))
                       then (elements c x)\<lparr>markSizeWiseCleanup := True\<rparr> else elements c x),
       mapOfElementsOrderSize :=
         insertMarked (elements c)
           (filter (\<lambda>a. \<not> markSizeWiseCleanup (elements c a))
              (takeWhile (staleOrMarked now (nThresholdInSec c) (elements c)) (listOfElements c)))
           (mapOfElementsOrderSize c)\<rparr>"
proof (cases "listOfElements c = []")
  case True
  then show ?thesis by (simp add: checkAccessTime_def insertMarked_def)
next
  case False
  then show ?thesis
    by (simp add: checkAccessTime_def checkAccessLoop_closed [OF assms])
qed

lemma cache_inv_checkAccessTime:
  assumes inv: "cache_inv c"
  shows "cache_inv (checkAccessTime now c)"
proof -
  let ?h = "elements c" and ?l = "listOfElements c" and ?sm = "mapOfElementsOrderSize c"
  let ?sc = "takeWhile (staleOrMarked now (nThresholdInSec c) ?h) ?l"
  let ?as = "filter (\<lambda>a. \<not> markSizeWiseCleanup (?h a)) ?sc"
  let ?h' = "\<lambda>x. if x \<in> set ?sc then (?h x)\<lparr>markSizeWiseCleanup := True\<rparr> else ?h x"
  from inv have d: "distinct ?l" and km: "keyMapOK ?h ?l (mapOfPKWithElement c)"
    and so: "sizeOrderOK ?h ?l ?sm" and al: "\<forall>a\<in>set ?l. a < allocated c"
    by (simp_all add: cache_inv_def)
  have r: "checkAccessTime now c = c\<lparr>elements := ?h', mapOfElementsOrderSize := insertMarked ?h ?as ?sm\<rparr>"
    by (rule checkAccessTime_closed [OF d])
  have das: "distinct ?as" using d by (simp add: distinct_takeWhile)
  have sub: "set ?as \<subseteq> set ?l" by (auto dest: set_takeWhileD)
  have ins: "set (insertMarked ?h ?as ?sm) = set ?sm \<union> entryOf ?h ` set ?as
         \<and> sorted_wrt CompareSizePKPair (map fst (insertMarked ?h ?as ?sm))"
    using so by (intro insertMarked_set [OF km das sub])
      (auto simp: sizeOrderOK_def entryOK_def entryOf_def prod_eq_iff)
  have km': "keyMapOK ?h' ?l (mapOfPKWithElement c)"
    using km by (simp add: keyMapOK_def)
  have so': "sizeOrderOK ?h' ?l (insertMarked ?h ?as ?sm)"
    unfolding sizeOrderOK_def
  proof (intro conjI ballI)
    show "sorted_wrt CompareSizePKPair (map fst (insertMarked ?h ?as ?sm))" using ins by simp
  next
    fix e assume "e \<in> set (insertMarked ?h ?as ?sm)"
    with ins have "e \<in> set ?sm \<or> e \<in> entryOf ?h ` set ?as" by auto
    then show "entryOK ?h' ?l e"
    proof
      assume "e \<in> set ?sm"
      with so show ?thesis by (auto simp: sizeOrderOK_def entryOK_def)
    next
      assume "e \<in> entryOf ?h ` set ?as"
      then show ?thesis using sub by (auto simp: entryOK_def entryOf_def dest: set_takeWhileD)
    qed
  qed
  show ?thesis
    unfolding r using d al km' so' by (simp add: cache_inv_def)
qed

lemma cache_inv_new: "cache_inv (new_LRUCacheSizeOrder soft hard thr ms)"
  by (simp add: cache_inv_def new_LRUCacheSizeOrder_def keyMapOK_def sizeOrderOK_def)

lemma cache_inv_exec: "cache_inv c \<Longrightarrow> cache_inv (fst (exec op c))"
  by (cases op)
    (simp_all add: cache_inv_updateElement cache_inv_updateElement_locked cache_inv_cleanup
      cache_inv_checkAccessTime)

lemma cache_inv_run: "cache_inv c \<Longrightarrow> cache_inv (run ops c)"
  unfolding run_def by (induction ops rule: rev_induct) (simp_all add: cache_inv_exec)

lemma cache_inv_reachable: "cache_inv (run ops (new_LRUCacheSizeOrder soft hard thr ms))"
  by (simp add: cache_inv_run cache_inv_new)

section \<open>The containers of LRUCache stay consistent\<close>

lemma lruUpdateElement_locked_new:
  "mMapOfElements c key = None \<Longrightarrow>
   lruUpdateElement_locked now element key sz c =
     c\<lparr>lruElements := (lruElements c)(lruAllocated c :=
          \<lparr>mLastAccessTime = now, mSize = sz, mWeakPointerElement = element,
           mPrimaryKey = key, markSizeWiseCleanup = False\<rparr>),
       lruAllocated := Suc (lruAllocated c),
       mListOfElements := mListOfElements c @ [lruAllocated c],
       mMapOfElements := (mMapOfElements c)(key \<mapsto> lruAllocated c),
       mTotalSize := mTotalSize c + sz\<rparr>"
  by (simp add: lruUpdateElement_locked_def new_LRUCacheElement_def Let_def)

lemma lruUpdateElement_locked_found:
  "mMapOfElements c key = Some a \<Longrightarrow>
   lruUpdateElement_locked now element key sz c =
     c\<lparr>mTotalSize := mTotalSize c - mSize (lruElements c a) + sz,
       lruElements := (lruElements c)(a :=
          (lruElements c a)\<lparr>mSize := sz, mLastAccessTime := now\<rparr>),
       mListOfElements := remove1 a (mListOfElements c) @ [a]\<rparr>"
  by (simp add: lruUpdateElement_locked_def Let_def)

lemma lru_inv_updateElement_locked:
  assumes inv: "lru_inv c"
  shows "lru_inv (lruUpdateElement_locked now element key sz c)"
proof (cases "mMapOfElements c key")
  case None
  let ?a = "lruAllocated c"
  from inv have fresh: "?a \<notin> set (mListOfElements c)"
    by (auto simp: lru_inv_def)
  from inv have km: "keyMapOK (lruElements c) (mListOfElements c) (mMapOfElements c)"
    by (simp add: lru_inv_def)
  have nokey: "mPrimaryKey (lruElements c b) \<noteq> key" if "b \<in> set (mListOfElements c)" for b
    using km None that unfolding keyMapOK_def by (metis option.distinct(1))
  have km': "keyMapOK ((lruElements c)(?a :=
          \<lparr>mLastAccessTime = now, mSize = sz, mWeakPointerElement = element,
           mPrimaryKey = key, markSizeWiseCleanup = False\<rparr>))
        (mListOfElements c @ [?a]) ((mMapOfElements c)(key \<mapsto> ?a))"
    unfolding keyMapOK_def
  proof (intro allI)
    fix k b
    show "(((mMapOfElements c)(key \<mapsto> ?a)) k = Some b) =
          (b \<in> set (mListOfElements c @ [?a]) \<and>
           mPrimaryKey (((lruElements c)(?a := \<lparr>mLastAccessTime = now, mSize = sz,
             mWeakPointerElement = element, mPrimaryKey = key,
             markSizeWiseCleanup = False\<rparr>)) b) = k)"
      using km fresh nokey [of b] unfolding keyMapOK_def by (cases "b = ?a") auto
  qed
  show ?thesis
    using inv fresh km' by (auto simp: lruUpdateElement_locked_new [OF None] lru_inv_def)
next
  case (Some a)
  from inv have km: "keyMapOK (lruElements c) (mListOfElements c) (mMapOfElements c)"
    and d: "distinct (mListOfElements c)"
    by (simp_all add: lru_inv_def)
  from km Some have ain: "a \<in> set (mListOfElements c)" by (simp add: keyMapOK_def)
  have sl: "set (remove1 a (mListOfElements c) @ [a]) = set (mListOfElements c)"
    using ain d by auto
  have km': "keyMapOK ((lruElements c)(a := (lruElements c a)\<lparr>mSize := sz, mLastAccessTime := now\<rparr>))
        (remove1 a (mListOfElements c) @ [a]) (mMapOfElements c)"
    using km unfolding keyMapOK_def sl by simp
  show ?thesis
    using inv d km' sl by (simp add: lruUpdateElement_locked_found [OF Some] lru_inv_def)
qed

lemma lruPurgeList_suffix:
  "lruPurgeList alive k h soft l m tot q = (l', m', tot', q')
   \<Longrightarrow> \<exists>pre. l = pre @ l'
         \<and> m' = (\<lambda>x. if x \<in> (\<lambda>a. mPrimaryKey (h a)) ` set pre then None else m x)"
proof (induction l arbitrary: m tot q)
  case Nil
  then show ?case by auto
next
  case (Cons el rest)
  show ?case
  proof (cases "soft <s tot")
    case False
    with Cons.prems show ?thesis by auto
  next
    case True
    let ?m1 = "m(mPrimaryKey (h el) := None)"
    from Cons.prems True obtain tot1 q1 where
      "lruPurgeList alive k h soft rest ?m1 tot1 q1 = (l', m', tot', q')"
      by (auto split: if_splits)
    from Cons.IH [OF this] obtain pre where
      p: "rest = pre @ l'"
      "m' = (\<lambda>x. if x \<in> (\<lambda>a. mPrimaryKey (h a)) ` set pre then None else ?m1 x)"
      by blast
    have "el # rest = (el # pre) @ l'" using p by simp
    moreover have
      "m' = (\<lambda>x. if x \<in> (\<lambda>a. mPrimaryKey (h a)) ` set (el # pre) then None else m x)"
      using p(2) by auto
    ultimately show ?thesis by blast
  qed
qed

lemma lru_inv_cleanup:
  assumes inv: "lru_inv c"
  shows "lru_inv (fst (lruCleanup alive k c))"
proof -
  obtain l' m' tot' q' where
    p: "lruPurgeList alive k (lruElements c) (mMaxSizeSoft c) (mListOfElements c)
          (mMapOfElements c) (mTotalSize c) [] = (l', m', tot', q')"
    using prod_cases4 by blast
  have r: "fst (lruCleanup alive k c) =
        c\<lparr>mListOfElements := l', mMapOfElements := m', mTotalSize := tot'\<rparr>"
    unfolding lruCleanup_def using p by simp
  from lruPurgeList_suffix [OF p] obtain pre where
    pre: "mListOfElements c = pre @ l'"
    "m' = (\<lambda>x. if x \<in> (\<lambda>a. mPrimaryKey (lruElements c a)) ` set pre then None
               else mMapOfElements c x)"
    by blast
  have km: "keyMapOK (lruElements c) l' m'"
    unfolding pre(2) using inv keyMapOK_suffix [of "lruElements c" pre l' "mMapOfElements c"]
    by (simp add: lru_inv_def pre(1))
  show ?thesis
    unfolding r using inv km by (auto simp: lru_inv_def pre(1))
qed

lemma lru_inv_updateElement:
  "lru_inv c \<Longrightarrow> lru_inv (fst (lruUpdateElement alive now element key sz c))"
  by (simp add: lruUpdateElement_def Let_def lru_inv_updateElement_locked lru_inv_cleanup)

lemma lru_inv_removeElement:
  assumes inv: "lru_inv c"
  shows "lru_inv (fst (removeElement key c))"
proof (cases "mMapOfElements c key")
  case None
  with inv show ?thesis by (simp add: removeElement_def)
next
  case (Some a)
  from inv have km: "keyMapOK (lruElements c) (mListOfElements c) (mMapOfElements c)"
    and d: "distinct (mListOfElements c)"
    by (simp_all add: lru_inv_def)
  from km Some have ain: "a \<in> set (mListOfElements c)"
    and ka: "mPrimaryKey (lruElements c a) = key"
    by (simp_all add: keyMapOK_def)
  have km': "keyMapOK (lruElements c) (remove1 a (mListOfElements c))
      ((mMapOfElements c)(key := None))"
    unfolding keyMapOK_def
  proof (intro allI)
    fix k b
    show "(((mMapOfElements c)(key := None)) k = Some b) =
        (b \<in> set (remove1 a (mListOfElements c)) \<and> mPrimaryKey (lruElements c b) = k)"
    proof (cases "b = a")
      case True
      then show ?thesis using d ka km Some unfolding keyMapOK_def by auto
    next
      case False
      have "mPrimaryKey (lruElements c b) \<noteq> key" if "b \<in> set (mListOfElements c)"
        using keyMapOK_inj [OF km that ain] ka False by auto
      then show ?thesis using False d km unfolding keyMapOK_def by auto
    qed
  qed
  show ?thesis
    using inv d km' by (auto simp: removeElement_def Some lru_inv_def dest: notin_set_remove1)
qed

lemma lru_inv_new: "lru_inv (new_LRUCache soft hard ms)"
  by (simp add: lru_inv_def new_LRUCache_def keyMapOK_def)

lemma lru_inv_exec: "lru_inv c \<Longrightarrow> lru_inv (fst (lruExec op c))"
  by (cases op)
    (simp_all add: lru_inv_updateElement lru_inv_updateElement_locked lru_inv_cleanup
      lru_inv_removeElement)

lemma lru_inv_run: "lru_inv c \<Longrightarrow> lru_inv (lruRun ops c)"
  unfolding lruRun_def by (induction ops rule: rev_induct) (simp_all add: lru_inv_exec)

lemma lru_inv_reachable: "lru_inv (lruRun ops (new_LRUCache soft hard ms))"
  by (simp add: lru_inv_run lru_inv_new)

section \<open>The loops of cleanup in closed form\<close>

lemma drainSizeOrder_closed:
  "drainSizeOrder alive h sm tot q =
     (tot - sizeOf h (map snd sm), q @ lockable alive h (map snd sm))"
  by (induction sm arbitrary: tot q) (simp_all add: sizeOf_def lockable_def)

lemma lockable_append: "lockable alive h (xs @ ys) = lockable alive h xs @ lockable alive h ys"
  by (simp add: lockable_def)

lemma lockable_subset:
  "set (lockable alive h as) \<subseteq> (\<lambda>a. mWeakPointerElement (h a)) ` set as"
  by (auto simp: lockable_def)

lemma purgeList_closed:
  "purgeList alive k h soft l m tot q = (l', m', tot', q') \<Longrightarrow>
   \<exists>n\<le>length l.
      l' = drop n l
    \<and> m' = (\<lambda>x. if x \<in> (\<lambda>a. mPrimaryKey (h a)) ` set (take n l) then None else m x)
    \<and> tot' = tot - sizeOf h (filter (purgeable k h) (take n l))
    \<and> q' = q @ lockable alive h (filter (purgeable k h) (take n l))
    \<and> (n = length l \<or> \<not> soft <s tot')
    \<and> (\<forall>j<n. soft <s tot - sizeOf h (filter (purgeable k h) (take j l)))"
proof (induction l arbitrary: m tot q)
  case Nil
  then show ?case by (auto simp: sizeOf_def lockable_def)
next
  case (Cons el rest)
  show ?case
  proof (cases "soft <s tot")
    case False
    with Cons.prems have "l' = el # rest" "m' = m" "tot' = tot" "q' = q" by auto
    with False show ?thesis
      by (intro exI [of _ 0]) (auto simp: sizeOf_def lockable_def)
  next
    case True
    let ?m1 = "m(mPrimaryKey (h el) := None)"
    let ?tot1 = "if purgeable k h el then tot - mSize (h el) else tot"
    let ?q1 = "if purgeable k h el then q @ lockable alive h [el] else q"
    from Cons.prems True have
      "purgeList alive k h soft rest ?m1 ?tot1 ?q1 = (l', m', tot', q')"
      by (auto simp: purgeable_def lockable_def split: if_splits)
    from Cons.IH [OF this] obtain n where n: "n \<le> length rest"
      "l' = drop n rest"
      "m' = (\<lambda>x. if x \<in> (\<lambda>a. mPrimaryKey (h a)) ` set (take n rest) then None else ?m1 x)"
      "tot' = ?tot1 - sizeOf h (filter (purgeable k h) (take n rest))"
      "q' = ?q1 @ lockable alive h (filter (purgeable k h) (take n rest))"
      "n = length rest \<or> \<not> soft <s tot'"
      "\<forall>j<n. soft <s ?tot1 - sizeOf h (filter (purgeable k h) (take j rest))"
      by blast
    have t: "tot - sizeOf h (filter (purgeable k h) (take (Suc j) (el # rest)))
           = ?tot1 - sizeOf h (filter (purgeable k h) (take j rest))" for j
      by (simp add: sizeOf_def)
    have qq: "q @ lockable alive h (filter (purgeable k h) (take (Suc j) (el # rest)))
           = ?q1 @ lockable alive h (filter (purgeable k h) (take j rest))" for j
      by (simp add: lockable_def)
    have all: "\<forall>j<Suc n. soft <s tot - sizeOf h (filter (purgeable k h) (take j (el # rest)))"
    proof (intro allI impI)
      fix j assume "j < Suc n"
      show "soft <s tot - sizeOf h (filter (purgeable k h) (take j (el # rest)))"
      proof (cases j)
        case 0
        with True show ?thesis by (simp add: sizeOf_def)
      next
        case (Suc i)
        with \<open>j < Suc n\<close> n(7) show ?thesis unfolding Suc t by simp
      qed
    qed
    show ?thesis
    proof (intro exI [of _ "Suc n"] conjI)
      show "Suc n \<le> length (el # rest)" using n(1) by simp
      show "l' = drop (Suc n) (el # rest)" using n(2) by simp
      show "m' = (\<lambda>x. if x \<in> (\<lambda>a. mPrimaryKey (h a)) ` set (take (Suc n) (el # rest))
                      then None else m x)"
        unfolding n(3) by auto
      show "tot' = tot - sizeOf h (filter (purgeable k h) (take (Suc n) (el # rest)))"
        unfolding t by (rule n(4))
      show "q' = q @ lockable alive h (filter (purgeable k h) (take (Suc n) (el # rest)))"
        unfolding qq by (rule n(5))
      show "Suc n = length (el # rest) \<or> \<not> soft <s tot'" using n(6) by simp
      show "\<forall>j<Suc n. soft <s tot - sizeOf h (filter (purgeable k h) (take j (el # rest)))"
        by (rule all)
    qed
  qed
qed

lemma cleanup_closed:
  assumes inv: "cache_inv c"
  shows "\<exists>n\<le>length (listOfElements c).
     sorted_wrt CompareSizePKPair (map fst (mapOfElementsOrderSize c))
   \<and> (\<forall>e\<in>set (mapOfElementsOrderSize c).
         nSize (fst e) = mSize (elements c (snd e))
       \<and> markSizeWiseCleanup (elements c (snd e)) \<and> snd e \<in> set (listOfElements c))
   \<and> cleanup alive keyToSaveFromPurge c =
       (c\<lparr>listOfElements := drop n (listOfElements c),
          mapOfPKWithElement :=
            (\<lambda>k. if k \<in> (\<lambda>a. mPrimaryKey (elements c a)) ` set (take n (listOfElements c))
                 then None else mapOfPKWithElement c k),
          nTotalSizeOfCache :=
            nTotalSizeOfCache c
              - sum_list (map (\<lambda>e. nSize (fst e)) (mapOfElementsOrderSize c))
              - sizeOf (elements c)
                  (filter (purgeable keyToSaveFromPurge (elements c)) (take n (listOfElements c))),
          mapOfElementsOrderSize := []\<rparr>,
        lockable alive (elements c) (map snd (mapOfElementsOrderSize c))
          @ lockable alive (elements c)
              (filter (purgeable keyToSaveFromPurge (elements c)) (take n (listOfElements c))))
   \<and> (n = length (listOfElements c)
        \<or> \<not> nSoftLimitInBytes c <s nTotalSizeOfCache (fst (cleanup alive keyToSaveFromPurge c)))
   \<and> (\<forall>j<n. nSoftLimitInBytes c <s
          nTotalSizeOfCache c
            - sum_list (map (\<lambda>e. nSize (fst e)) (mapOfElementsOrderSize c))
            - sizeOf (elements c)
                (filter (purgeable keyToSaveFromPurge (elements c)) (take j (listOfElements c))))"
proof -
  let ?h = "elements c" and ?l = "listOfElements c" and ?sm = "mapOfElementsOrderSize c"
  let ?tot1 = "nTotalSizeOfCache c - sizeOf ?h (map snd ?sm)"
  let ?q1 = "lockable alive ?h (map snd ?sm)"
  from inv have so: "sizeOrderOK ?h ?l ?sm" by (simp add: cache_inv_def)
  have ent: "\<forall>e\<in>set ?sm. nSize (fst e) = mSize (?h (snd e))
       \<and> markSizeWiseCleanup (?h (snd e)) \<and> snd e \<in> set ?l"
    using so by (auto simp: sizeOrderOK_def entryOK_def)
  have sizes: "sum_list (map (\<lambda>e. nSize (fst e)) ?sm) = sizeOf ?h (map snd ?sm)"
    unfolding sizeOf_def map_map using ent by (intro arg_cong [where f = sum_list] map_cong) auto
  have d: "(if ?sm \<noteq> [] then drainSizeOrder alive ?h ?sm (nTotalSizeOfCache c) []
            else (nTotalSizeOfCache c, [])) = (?tot1, ?q1)"
    by (simp add: drainSizeOrder_closed sizeOf_def lockable_def)
  obtain l' m' tot' q' where
    p: "purgeList alive keyToSaveFromPurge ?h (nSoftLimitInBytes c) ?l (mapOfPKWithElement c)
          ?tot1 ?q1 = (l', m', tot', q')"
    using prod_cases4 by blast
  have r: "cleanup alive keyToSaveFromPurge c =
        (c\<lparr>listOfElements := l', mapOfPKWithElement := m', nTotalSizeOfCache := tot',
          mapOfElementsOrderSize := []\<rparr>, q')"
    unfolding cleanup_def d using p by simp
  from purgeList_closed [OF p] obtain n where n: "n \<le> length ?l"
    "l' = drop n ?l"
    "m' = (\<lambda>x. if x \<in> (\<lambda>a. mPrimaryKey (?h a)) ` set (take n ?l) then None
                else mapOfPKWithElement c x)"
    "tot' = ?tot1 - sizeOf ?h (filter (purgeable keyToSaveFromPurge ?h) (take n ?l))"
    "q' = ?q1 @ lockable alive ?h (filter (purgeable keyToSaveFromPurge ?h) (take n ?l))"
    "n = length ?l \<or> \<not> nSoftLimitInBytes c <s tot'"
    "\<forall>j<n. nSoftLimitInBytes c <s
        ?tot1 - sizeOf ?h (filter (purgeable keyToSaveFromPurge ?h) (take j ?l))"
    by blast
  have t: "nTotalSizeOfCache (fst (cleanup alive keyToSaveFromPurge c)) = tot'"
    by (simp add: r)
  show ?thesis
  proof (intro exI [of _ n] conjI)
    show "n \<le> length ?l" by (rule n(1))
    show "sorted_wrt CompareSizePKPair (map fst ?sm)"
      using so by (simp add: sizeOrderOK_def)
    show "\<forall>e\<in>set ?sm. nSize (fst e) = mSize (?h (snd e))
       \<and> markSizeWiseCleanup (?h (snd e)) \<and> snd e \<in> set ?l" by (rule ent)
    show "cleanup alive keyToSaveFromPurge c =
       (c\<lparr>listOfElements := drop n ?l,
          mapOfPKWithElement :=
            (\<lambda>k. if k \<in> (\<lambda>a. mPrimaryKey (?h a)) ` set (take n ?l)
                 then None else mapOfPKWithElement c k),
          nTotalSizeOfCache :=
            nTotalSizeOfCache c - sum_list (map (\<lambda>e. nSize (fst e)) ?sm)
              - sizeOf ?h (filter (purgeable keyToSaveFromPurge ?h) (take n ?l)),
          mapOfElementsOrderSize := []\<rparr>,
        lockable alive ?h (map snd ?sm)
          @ lockable alive ?h (filter (purgeable keyToSaveFromPurge ?h) (take n ?l)))"
      unfolding r sizes using n(2-5) by simp
    show "n = length ?l
        \<or> \<not> nSoftLimitInBytes c <s nTotalSizeOfCache (fst (cleanup alive keyToSaveFromPurge c))"
      unfolding t by (rule n(6))
    show "\<forall>j<n. nSoftLimitInBytes c <s
          nTotalSizeOfCache c - sum_list (map (\<lambda>e. nSize (fst e)) ?sm)
            - sizeOf ?h (filter (purgeable keyToSaveFromPurge ?h) (take j ?l))"
      unfolding sizes by (rule n(7))
  qed
qed

section \<open>The locked block of updateElement\<close>

lemma sizeOrder_erase_filter:
  "sorted_wrt CompareSizePKPair (map fst sm)
   \<Longrightarrow> sizeOrder_erase k sm = filter (\<lambda>f. fst f \<noteq> k) sm"
proof (induction sm)
  case Nil
  then show ?case by simp
next
  case (Cons f fs)
  show ?case
  proof (cases "fst f = k")
    case True
    have "\<forall>g\<in>set fs. fst g \<noteq> k"
      using Cons.prems True Compare_irrefl by auto
    then have "filter (\<lambda>f. fst f \<noteq> k) fs = fs" by (simp add: filter_id_conv)
    with True show ?thesis by (simp add: Compare_irrefl)
  next
    case False
    with Cons show ?thesis by (auto simp: Compare_equiv)
  qed
qed

text \<open>What the locked block of updateElement leaves behind, in a consistent state.\<close>

lemma updateElement_locked_effect:
  assumes inv: "cache_inv c"
  shows "\<exists>a. mapOfPKWithElement (updateElement_locked now element key sz c) key = Some a
     \<and> (mapOfPKWithElement c key = None \<and> a \<notin> set (listOfElements c)
          \<or> mapOfPKWithElement c key = Some a)
     \<and> elements (updateElement_locked now element key sz c) a =
         \<lparr>mLastAccessTime = now, mSize = sz,
          mWeakPointerElement =
            (case mapOfPKWithElement c key of None \<Rightarrow> element
             | Some b \<Rightarrow> mWeakPointerElement (elements c b)),
          mPrimaryKey = key, markSizeWiseCleanup = False\<rparr>
     \<and> (\<forall>b. b \<noteq> a \<longrightarrow> elements (updateElement_locked now element key sz c) b = elements c b)
     \<and> listOfElements (updateElement_locked now element key sz c)
         = remove1 a (listOfElements c) @ [a]
     \<and> mapOfPKWithElement (updateElement_locked now element key sz c)
         = (mapOfPKWithElement c)(key \<mapsto> a)
     \<and> mapOfElementsOrderSize (updateElement_locked now element key sz c)
         = filter (\<lambda>e. snd e \<noteq> a) (mapOfElementsOrderSize c)
     \<and> nTotalSizeOfCache (updateElement_locked now element key sz c)
         = nTotalSizeOfCache c
           - (case mapOfPKWithElement c key of None \<Rightarrow> 0 | Some b \<Rightarrow> mSize (elements c b))
           + sz"
proof (cases "mapOfPKWithElement c key")
  case None
  let ?a = "allocated c"
  from inv have fresh: "?a \<notin> set (listOfElements c)"
    by (auto simp: cache_inv_def)
  from inv have km: "keyMapOK (elements c) (listOfElements c) (mapOfPKWithElement c)"
    and so: "sizeOrderOK (elements c) (listOfElements c) (mapOfElementsOrderSize c)"
    by (simp_all add: cache_inv_def)
  have nokey: "mPrimaryKey (elements c b) \<noteq> key" if "b \<in> set (listOfElements c)" for b
    using km None that unfolding keyMapOK_def by (metis option.distinct(1))
  have "sizeOrder_erase \<lparr>nSize = 0, nPrimaryKey = key\<rparr> (mapOfElementsOrderSize c)
        = filter (\<lambda>f. fst f \<noteq> \<lparr>nSize = 0, nPrimaryKey = key\<rparr>) (mapOfElementsOrderSize c)"
    using so by (intro sizeOrder_erase_filter) (simp add: sizeOrderOK_def)
  also have "\<dots> = filter (\<lambda>e. snd e \<noteq> ?a) (mapOfElementsOrderSize c)"
  proof (rule filter_cong [OF refl])
    fix e assume "e \<in> set (mapOfElementsOrderSize c)"
    with so have "entryOK (elements c) (listOfElements c) e" by (simp add: sizeOrderOK_def)
    then show "(fst e \<noteq> \<lparr>nSize = 0, nPrimaryKey = key\<rparr>) = (snd e \<noteq> ?a)"
      using fresh nokey [of "snd e"] by (auto simp: entryOK_def)
  qed
  finally have sm: "sizeOrder_erase \<lparr>nSize = 0, nPrimaryKey = key\<rparr> (mapOfElementsOrderSize c)
        = filter (\<lambda>e. snd e \<noteq> ?a) (mapOfElementsOrderSize c)" .
  show ?thesis
    using None fresh sm
    by (intro exI [of _ ?a]) (simp add: updateElement_locked_new [OF None] remove1_idem)
next
  case (Some a)
  let ?k0 = "\<lparr>nSize = mSize (elements c a), nPrimaryKey = mPrimaryKey (elements c a)\<rparr>"
  from inv have km: "keyMapOK (elements c) (listOfElements c) (mapOfPKWithElement c)"
    and so: "sizeOrderOK (elements c) (listOfElements c) (mapOfElementsOrderSize c)"
    by (simp_all add: cache_inv_def)
  from km Some have ain: "a \<in> set (listOfElements c)" and ka: "mPrimaryKey (elements c a) = key"
    by (simp_all add: keyMapOK_def)
  have "sizeOrder_erase ?k0 (mapOfElementsOrderSize c)
        = filter (\<lambda>f. fst f \<noteq> ?k0) (mapOfElementsOrderSize c)"
    using so by (intro sizeOrder_erase_filter) (simp add: sizeOrderOK_def)
  also have "\<dots> = filter (\<lambda>e. snd e \<noteq> a) (mapOfElementsOrderSize c)"
  proof (rule filter_cong [OF refl])
    fix e assume "e \<in> set (mapOfElementsOrderSize c)"
    with so have e: "entryOK (elements c) (listOfElements c) e" by (simp add: sizeOrderOK_def)
    show "(fst e \<noteq> ?k0) = (snd e \<noteq> a)"
    proof (cases "snd e = a")
      case True
      with e show ?thesis by (simp add: entryOK_def)
    next
      case False
      have "mPrimaryKey (elements c (snd e)) \<noteq> mPrimaryKey (elements c a)"
        using keyMapOK_inj [OF km _ ain, of "snd e"] e False by (auto simp: entryOK_def)
      with e False show ?thesis by (auto simp: entryOK_def)
    qed
  qed
  finally have sm: "sizeOrder_erase ?k0 (mapOfElementsOrderSize c)
        = filter (\<lambda>e. snd e \<noteq> a) (mapOfElementsOrderSize c)" .
  have m: "(mapOfPKWithElement c)(key \<mapsto> a) = mapOfPKWithElement c"
    using Some by (simp add: fun_upd_idem)
  have el: "(elements c a)\<lparr>markSizeWiseCleanup := False, mSize := sz, mLastAccessTime := now\<rparr>
      = \<lparr>mLastAccessTime = now, mSize = sz,
          mWeakPointerElement = mWeakPointerElement (elements c a),
          mPrimaryKey = key, markSizeWiseCleanup = False\<rparr>"
    using ka by (cases "elements c a") simp
  show ?thesis
    using Some sm m el
    by (intro exI [of _ a]) (simp add: updateElement_locked_found [OF Some])
qed

text \<open>The eviction that an update triggers, with the updated key protected.\<close>

lemma updateElement_protects_key_inv:
  assumes inv: "cache_inv c"
    and adm: "sz \<le> nHardLimitInBytes c"
    and over: "nHardLimitInBytes c <s nTotalSizeOfCache (updateElement_locked now element key sz c)"
  shows "\<exists>a as.
      mapOfPKWithElement (updateElement_locked now element key sz c) key = Some a
    \<and> last (listOfElements (updateElement_locked now element key sz c)) = a
    \<and> updateElement alive now element key sz c
        = cleanup alive (Some key) (updateElement_locked now element key sz c)
    \<and> snd (updateElement alive now element key sz c)
        = lockable alive (elements (updateElement_locked now element key sz c)) as
    \<and> set as \<subseteq> set (listOfElements (updateElement_locked now element key sz c))
    \<and> a \<notin> set as
    \<and> (listOfElements (fst (updateElement alive now element key sz c)) = []
        \<and> mapOfPKWithElement (fst (updateElement alive now element key sz c)) key = None
        \<and> nSoftLimitInBytes c <s
            nTotalSizeOfCache (updateElement_locked now element key sz c)
            - sum_list (map (\<lambda>e. nSize (fst e))
                (mapOfElementsOrderSize (updateElement_locked now element key sz c)))
            - sizeOf (elements (updateElement_locked now element key sz c))
                (filter (purgeable (Some key) (elements (updateElement_locked now element key sz c)))
                   (butlast (listOfElements (updateElement_locked now element key sz c))))
       \<or> listOfElements (fst (updateElement alive now element key sz c)) \<noteq> []
        \<and> last (listOfElements (fst (updateElement alive now element key sz c))) = a
        \<and> mapOfPKWithElement (fst (updateElement alive now element key sz c)) key = Some a)"
proof -
  let ?c' = "updateElement_locked now element key sz c"
  let ?h = "elements ?c'" and ?l = "listOfElements ?c'" and ?sm = "mapOfElementsOrderSize ?c'"
  let ?P = "purgeable (Some key) ?h"
  have inv': "cache_inv ?c'" by (rule cache_inv_updateElement_locked [OF inv])
  then have d: "distinct ?l" and km: "keyMapOK ?h ?l (mapOfPKWithElement ?c')"
    by (simp_all add: cache_inv_def)
  from updateElement_locked_effect [OF inv, of now element key sz] obtain a where
    a: "mapOfPKWithElement ?c' key = Some a"
    "?l = remove1 a (listOfElements c) @ [a]"
    "?sm = filter (\<lambda>e. snd e \<noteq> a) (mapOfElementsOrderSize c)"
    by blast
  from km a(1) have ka: "mPrimaryKey (?h a) = key" and al: "a \<in> set ?l"
    by (simp_all add: keyMapOK_def)
  have last: "last ?l = a" and ne: "?l \<noteq> []" by (simp_all add: a(2))
  have soft: "nSoftLimitInBytes ?c' = nSoftLimitInBytes c"
    and hard: "nHardLimitInBytes ?c' = nHardLimitInBytes c"
    by (cases "mapOfPKWithElement c key",
        simp_all add: updateElement_locked_new updateElement_locked_found)+
  have u: "updateElement alive now element key sz c = cleanup alive (Some key) ?c'"
    using adm over by (simp add: updateElement_def Let_def hard)
  from cleanup_closed [OF inv', of alive "Some key"] obtain n where n: "n \<le> length ?l"
    "cleanup alive (Some key) ?c' =
       (?c'\<lparr>listOfElements := drop n ?l,
          mapOfPKWithElement :=
            (\<lambda>k. if k \<in> (\<lambda>a. mPrimaryKey (?h a)) ` set (take n ?l)
                 then None else mapOfPKWithElement ?c' k),
          nTotalSizeOfCache :=
            nTotalSizeOfCache ?c' - sum_list (map (\<lambda>e. nSize (fst e)) ?sm)
              - sizeOf ?h (filter ?P (take n ?l)),
          mapOfElementsOrderSize := []\<rparr>,
        lockable alive ?h (map snd ?sm) @ lockable alive ?h (filter ?P (take n ?l)))"
    "\<forall>j<n. nSoftLimitInBytes ?c' <s
          nTotalSizeOfCache ?c' - sum_list (map (\<lambda>e. nSize (fst e)) ?sm)
            - sizeOf ?h (filter ?P (take j ?l))"
    by blast
  let ?as = "map snd ?sm @ filter ?P (take n ?l)"
  have q: "snd (updateElement alive now element key sz c) = lockable alive ?h ?as"
    unfolding u n(2) by (simp add: lockable_append)
  have notin: "a \<notin> set ?as"
    using ka unfolding a(3) by (auto simp: purgeable_def)
  have sub: "set ?as \<subseteq> set ?l"
    using inv' by (auto simp: cache_inv_def sizeOrderOK_def entryOK_def dest: in_set_takeD)
  have rl: "listOfElements (fst (updateElement alive now element key sz c)) = drop n ?l"
    and rm: "mapOfPKWithElement (fst (updateElement alive now element key sz c)) key =
      (if key \<in> (\<lambda>a. mPrimaryKey (?h a)) ` set (take n ?l) then None else Some a)"
    unfolding u n(2) using a(1) by simp_all
  have fin: "listOfElements (fst (updateElement alive now element key sz c)) = []
        \<and> mapOfPKWithElement (fst (updateElement alive now element key sz c)) key = None
        \<and> nSoftLimitInBytes c <s
            nTotalSizeOfCache ?c' - sum_list (map (\<lambda>e. nSize (fst e)) ?sm)
            - sizeOf ?h (filter ?P (butlast ?l))
       \<or> listOfElements (fst (updateElement alive now element key sz c)) \<noteq> []
        \<and> last (listOfElements (fst (updateElement alive now element key sz c))) = a
        \<and> mapOfPKWithElement (fst (updateElement alive now element key sz c)) key = Some a"
  proof (cases "n = length ?l")
    case True
    have "a \<in> set (take n ?l)" using True al by simp
    then have "mPrimaryKey (?h a) \<in> (\<lambda>a. mPrimaryKey (?h a)) ` set (take n ?l)"
      by (rule imageI)
    then have "key \<in> (\<lambda>a. mPrimaryKey (?h a)) ` set (take n ?l)"
      unfolding ka .
    moreover have "nSoftLimitInBytes c <s
            nTotalSizeOfCache ?c' - sum_list (map (\<lambda>e. nSize (fst e)) ?sm)
            - sizeOf ?h (filter ?P (butlast ?l))"
      using n(3) [rule_format, of "length ?l - 1"] True ne
      by (simp add: soft butlast_conv_take)
    ultimately show ?thesis unfolding rl rm using True by simp
  next
    case False
    with n(1) have lt: "n < length ?l" by simp
    then have dne: "drop n ?l \<noteq> []" by simp
    have dl: "last (drop n ?l) = a" using lt last by simp
    have ain: "a \<in> set (drop n ?l)" using last_in_set [OF dne] dl by simp
    have "key \<notin> (\<lambda>a. mPrimaryKey (?h a)) ` set (take n ?l)"
    proof
      assume "key \<in> (\<lambda>a. mPrimaryKey (?h a)) ` set (take n ?l)"
      then obtain b where b: "b \<in> set (take n ?l)" "mPrimaryKey (?h b) = key" by auto
      then have "b \<in> set ?l" by (auto dest: in_set_takeD)
      from keyMapOK_inj [OF km this al] b(2) ka have "b = a" by simp
      moreover have "set (take n ?l) \<inter> set (drop n ?l) = {}"
        using d by (metis append_take_drop_id distinct_append)
      ultimately show False using b(1) ain by auto
    qed
    then show ?thesis unfolding rl rm using dne dl by simp
  qed
  show ?thesis
    apply (rule exI [of _ a])
    apply (rule exI [of _ ?as])
    apply (intro conjI)
          apply (rule a(1))
         apply (rule last)
        apply (rule u)
       apply (rule q)
      apply (rule sub)
     apply (rule notin)
    apply (rule fin)
    done
qed

section \<open>Without the threshold thread\<close>

lemma purgeList_unmarked:
  "\<forall>a\<in>set l. \<not> markSizeWiseCleanup (h a) \<Longrightarrow>
   purgeList alive k h soft l m tot q = lruPurgeList alive k h soft l m tot q"
  by (induction l arbitrary: m tot q) auto

lemma cleanup_frame:
  "elements (fst (cleanup alive k c)) = elements c
   \<and> ThresholdThread (fst (cleanup alive k c)) = ThresholdThread c
   \<and> mapOfElementsOrderSize (fst (cleanup alive k c)) = []
   \<and> set (listOfElements (fst (cleanup alive k c))) \<subseteq> set (listOfElements c)"
proof -
  obtain tot1 q1 where
    d: "(if mapOfElementsOrderSize c \<noteq> []
         then drainSizeOrder alive (elements c) (mapOfElementsOrderSize c) (nTotalSizeOfCache c) []
         else (nTotalSizeOfCache c, [])) = (tot1, q1)"
    by fastforce
  obtain l' m' tot' q' where
    p: "purgeList alive k (elements c) (nSoftLimitInBytes c) (listOfElements c)
          (mapOfPKWithElement c) tot1 q1 = (l', m', tot', q')"
    using prod_cases4 by blast
  have r: "fst (cleanup alive k c) =
        c\<lparr>listOfElements := l', mapOfPKWithElement := m', nTotalSizeOfCache := tot',
          mapOfElementsOrderSize := []\<rparr>"
    unfolding cleanup_def d using p by simp
  from purgeList_suffix [OF p] obtain pre where "listOfElements c = pre @ l'" by blast
  then show ?thesis unfolding r by auto
qed

lemma plain_updateElement_locked:
  assumes "\<not> ThresholdThread c" "mapOfElementsOrderSize c = []"
    "\<forall>a\<in>set (listOfElements c). \<not> markSizeWiseCleanup (elements c a)"
  shows "\<not> ThresholdThread (updateElement_locked now element key sz c)
    \<and> mapOfElementsOrderSize (updateElement_locked now element key sz c) = []
    \<and> (\<forall>a\<in>set (listOfElements (updateElement_locked now element key sz c)).
          \<not> markSizeWiseCleanup (elements (updateElement_locked now element key sz c) a))"
proof (cases "mapOfPKWithElement c key")
  case None
  show ?thesis using assms by (auto simp: updateElement_locked_new [OF None])
next
  case (Some a)
  show ?thesis using assms
    by (auto simp: updateElement_locked_found [OF Some] dest: notin_set_remove1)
qed

lemma plain_cleanup:
  assumes "\<not> ThresholdThread c"
    "\<forall>a\<in>set (listOfElements c). \<not> markSizeWiseCleanup (elements c a)"
  shows "\<not> ThresholdThread (fst (cleanup alive k c))
    \<and> mapOfElementsOrderSize (fst (cleanup alive k c)) = []
    \<and> (\<forall>a\<in>set (listOfElements (fst (cleanup alive k c))).
          \<not> markSizeWiseCleanup (elements (fst (cleanup alive k c)) a))"
  using assms cleanup_frame [of alive k c] by auto

lemma plain_updateElement:
  assumes "\<not> ThresholdThread c" "mapOfElementsOrderSize c = []"
    "\<forall>a\<in>set (listOfElements c). \<not> markSizeWiseCleanup (elements c a)"
  shows "\<not> ThresholdThread (fst (updateElement alive now element key sz c))
    \<and> mapOfElementsOrderSize (fst (updateElement alive now element key sz c)) = []
    \<and> (\<forall>a\<in>set (listOfElements (fst (updateElement alive now element key sz c))).
          \<not> markSizeWiseCleanup (elements (fst (updateElement alive now element key sz c)) a))"
proof -
  note l = plain_updateElement_locked [OF assms, of now element key sz]
  from l have c: "\<not> ThresholdThread (fst (cleanup alive (Some key) (updateElement_locked now element key sz c)))
    \<and> mapOfElementsOrderSize (fst (cleanup alive (Some key) (updateElement_locked now element key sz c))) = []
    \<and> (\<forall>a\<in>set (listOfElements (fst (cleanup alive (Some key) (updateElement_locked now element key sz c)))).
          \<not> markSizeWiseCleanup (elements (fst (cleanup alive (Some key) (updateElement_locked now element key sz c))) a))"
    by (intro plain_cleanup) simp_all
  show ?thesis
    using assms l c by (simp add: updateElement_def Let_def)
qed

lemma plain_run:
  "\<not> ThresholdThread (run ops (new_LRUCacheSizeOrder maxSizeSoft maxSizeHard 0 cleanScheduleMs))
   \<and> mapOfElementsOrderSize (run ops (new_LRUCacheSizeOrder maxSizeSoft maxSizeHard 0 cleanScheduleMs)) = []
   \<and> (\<forall>a\<in>set (listOfElements (run ops (new_LRUCacheSizeOrder maxSizeSoft maxSizeHard 0 cleanScheduleMs))).
        \<not> markSizeWiseCleanup
            (elements (run ops (new_LRUCacheSizeOrder maxSizeSoft maxSizeHard 0 cleanScheduleMs)) a))"
proof (induction ops rule: rev_induct)
  case Nil
  show ?case by (simp add: run_def new_LRUCacheSizeOrder_def)
next
  case (snoc op ops)
  let ?c = "run ops (new_LRUCacheSizeOrder maxSizeSoft maxSizeHard 0 cleanScheduleMs)"
  have r: "run (ops @ [op]) (new_LRUCacheSizeOrder maxSizeSoft maxSizeHard 0 cleanScheduleMs)
           = fst (exec op ?c)"
    by (simp add: run_def)
  from snoc have p: "\<not> ThresholdThread ?c" "mapOfElementsOrderSize ?c = []"
    "\<forall>a\<in>set (listOfElements ?c). \<not> markSizeWiseCleanup (elements ?c a)"
    by simp_all
  show ?case
    unfolding r
  proof (cases op)
    case (Update alive now element key sz)
    show "\<not> ThresholdThread (fst (exec op ?c))
      \<and> mapOfElementsOrderSize (fst (exec op ?c)) = []
      \<and> (\<forall>a\<in>set (listOfElements (fst (exec op ?c))).
            \<not> markSizeWiseCleanup (elements (fst (exec op ?c)) a))"
      unfolding Update exec.simps by (rule plain_updateElement [OF p])
  next
    case (UpdateLocked now element key sz)
    show "\<not> ThresholdThread (fst (exec op ?c))
      \<and> mapOfElementsOrderSize (fst (exec op ?c)) = []
      \<and> (\<forall>a\<in>set (listOfElements (fst (exec op ?c))).
            \<not> markSizeWiseCleanup (elements (fst (exec op ?c)) a))"
      unfolding UpdateLocked exec.simps
      using plain_updateElement_locked [OF p, of now element key sz] p by simp
  next
    case (Cleanup alive k)
    show "\<not> ThresholdThread (fst (exec op ?c))
      \<and> mapOfElementsOrderSize (fst (exec op ?c)) = []
      \<and> (\<forall>a\<in>set (listOfElements (fst (exec op ?c))).
            \<not> markSizeWiseCleanup (elements (fst (exec op ?c)) a))"
      unfolding Cleanup exec.simps by (rule plain_cleanup [OF p(1,3)])
  next
    case (CleanerTimeout alive)
    show "\<not> ThresholdThread (fst (exec op ?c))
      \<and> mapOfElementsOrderSize (fst (exec op ?c)) = []
      \<and> (\<forall>a\<in>set (listOfElements (fst (exec op ?c))).
            \<not> markSizeWiseCleanup (elements (fst (exec op ?c)) a))"
      unfolding CleanerTimeout exec.simps
      using plain_cleanup [OF p(1,3), of alive None] p by simp
  next
    case (ThresholdTimeout now)
    show "\<not> ThresholdThread (fst (exec op ?c))
      \<and> mapOfElementsOrderSize (fst (exec op ?c)) = []
      \<and> (\<forall>a\<in>set (listOfElements (fst (exec op ?c))).
            \<not> markSizeWiseCleanup (elements (fst (exec op ?c)) a))"
      unfolding ThresholdTimeout exec.simps using p by simp
  qed
qed

lemma plain_cleanup_eq:
  assumes "mapOfElementsOrderSize c = []"
    "\<forall>a\<in>set (listOfElements c). \<not> markSizeWiseCleanup (elements c a)"
  shows "(asLRUCache (fst (cleanup alive k c)), snd (cleanup alive k c))
         = lruCleanup alive k (asLRUCache c)"
  using assms
  by (simp add: cleanup_def lruCleanup_def asLRUCache_def purgeList_unmarked split: prod.splits)

lemma plain_updateElement_locked_eq:
  assumes "cache_inv c" "mapOfElementsOrderSize c = []"
    "\<forall>a\<in>set (listOfElements c). \<not> markSizeWiseCleanup (elements c a)"
  shows "asLRUCache (updateElement_locked now element key sz c)
         = lruUpdateElement_locked now element key sz (asLRUCache c)"
proof (cases "mapOfPKWithElement c key")
  case None
  show ?thesis
    using assms(2)
    by (simp add: updateElement_locked_new [OF None] lruUpdateElement_locked_def asLRUCache_def
        new_LRUCacheElement_def Let_def None)
next
  case (Some a)
  from assms(1) Some have "a \<in> set (listOfElements c)"
    by (simp add: cache_inv_def keyMapOK_def)
  with assms(3) have "\<not> markSizeWiseCleanup (elements c a)" by simp
  then have "(elements c a)\<lparr>markSizeWiseCleanup := False\<rparr> = elements c a"
    by (cases "elements c a") simp
  then have "(elements c a)\<lparr>markSizeWiseCleanup := False, mSize := sz, mLastAccessTime := now\<rparr>
      = (elements c a)\<lparr>mSize := sz, mLastAccessTime := now\<rparr>" by simp
  then show ?thesis
    using assms(2)
    by (simp add: updateElement_locked_found [OF Some] lruUpdateElement_locked_def asLRUCache_def
        Let_def Some)
qed

section \<open>Where the total keeps step with the tracked sizes\<close>

text \<open>The locked block of \<open>updateElement\<close> and the sweep of \<open>checkAccessTime\<close> keep the total
  equal to the sum of the tracked sizes; \<open>cleanup\<close> is where the two part.\<close>

lemma sizeOf_cong:
  "(\<And>a. a \<in> set as \<Longrightarrow> mSize (h1 a) = mSize (h2 a)) \<Longrightarrow> sizeOf h1 as = sizeOf h2 as"
  unfolding sizeOf_def by (induction as) auto

lemma sizeOf_remove1:
  "a \<in> set as \<Longrightarrow> sizeOf h as = sizeOf h (remove1 a as) + mSize (h a)"
  unfolding sizeOf_def by (induction as) auto

lemma sizeOf_remove1_minus:
  "a \<in> set as \<Longrightarrow> sizeOf h (remove1 a as) = sizeOf h as - mSize (h a)"
  using sizeOf_remove1 [of a as h] by simp

lemma trackedSize_updateElement_locked:
  assumes inv: "cache_inv c" and t: "nTotalSizeOfCache c = trackedSize c"
  shows "nTotalSizeOfCache (updateElement_locked now element key sz c)
         = trackedSize (updateElement_locked now element key sz c)"
proof (cases "mapOfPKWithElement c key")
  case None
  from inv have fresh: "allocated c \<notin> set (listOfElements c)"
    by (auto simp: cache_inv_def)
  have "sizeOf ((elements c)(allocated c :=
          \<lparr>mLastAccessTime = now, mSize = sz, mWeakPointerElement = element,
           mPrimaryKey = key, markSizeWiseCleanup = False\<rparr>)) (listOfElements c)
        = sizeOf (elements c) (listOfElements c)"
    by (rule sizeOf_cong) (use fresh in auto)
  then show ?thesis
    using t by (simp add: updateElement_locked_new [OF None] trackedSize_def sizeOf_def)
next
  case (Some a)
  from inv Some have ain: "a \<in> set (listOfElements c)"
    by (simp add: cache_inv_def keyMapOK_def)
  from inv have d: "distinct (listOfElements c)" by (simp add: cache_inv_def)
  have "sizeOf ((elements c)(a := (elements c a)
          \<lparr>markSizeWiseCleanup := False, mSize := sz, mLastAccessTime := now\<rparr>))
          (remove1 a (listOfElements c))
        = sizeOf (elements c) (remove1 a (listOfElements c))"
    by (rule sizeOf_cong) (use d in auto)
  then show ?thesis
    using t sizeOf_remove1 [OF ain, of "elements c"]
    by (simp add: updateElement_locked_found [OF Some] trackedSize_def sizeOf_def)
qed

lemma trackedSize_checkAccessTime:
  assumes inv: "cache_inv c" and t: "nTotalSizeOfCache c = trackedSize c"
  shows "nTotalSizeOfCache (checkAccessTime now c) = trackedSize (checkAccessTime now c)"
proof -
  from inv have d: "distinct (listOfElements c)" by (simp add: cache_inv_def)
  show ?thesis
    using t unfolding checkAccessTime_closed [OF d] trackedSize_def
    by (auto intro!: sizeOf_cong)
qed

section \<open>Evaluation\<close>

text \<open>The equations that unfold the operations on a concrete state.\<close>

lemmas ev = updateElement_def new_LRUCacheSizeOrder_def updateElement_locked_def
  findOrCreate_def removeSizeWiseMarker_def cleanup_def new_LRUCacheElement_def
  checkAccessTime_def CompareSizePKPair_def Let_def run_def staleOrMarked_def entryOf_def
  word_sless_alt word_sle_eq

lemmas ex = ex_one_key_def ex_three_keys_def ex_two_ages_def ex_marked_def ex_hybrid_def
  ex_pure_lru_def ex_protected_def ex_drained_def ex_negative_hard_def

lemmas lev = lruRun_def lruUpdateElement_def lruUpdateElement_locked_def lruCleanup_def
  new_LRUCache_def new_LRUCacheElement_def removeElement_def lruTrackedSize_def sizeOf_def
  Let_def word_sless_alt word_sle_eq

text \<open>The value \<open>-1\<close>, passed as a \<open>size_t\<close>, is above a hard limit of 40.\<close>

lemma size_t_minus_one: "\<not> (- 1 :: int64) \<le> 40"
  by (simp add: word_le_def uint_word_ariths)


section \<open>The admission guard of updateElement\<close>

text \<open>For a hard limit that is not negative, the unsigned comparison of the guard is the
  comparison of the two numbers.\<close>

lemma unsigned_guard_nonneg:
  fixes sz h :: int64
  assumes "0 \<le>s h"
  shows "(sz \<le> h) = (uint sz \<le> sint h)"
proof -
  have a: "0 \<le> sint h" using assms by (simp add: word_sle_eq)
  have b: "sint h < 2 ^ 64" using sint_lt [of h] by simp
  have "uint h = take_bit 64 (sint h)" using uint_sint [of h] by simp
  also have "\<dots> = sint h" using a b by (simp add: take_bit_int_eq_self)
  finally show ?thesis by (simp add: word_le_def)
qed




section \<open>removeElement\<close>

text \<open>
  C9. \<open>removeElement key\<close> calls no \<open>cleanup()\<close> and leaves every element object and
  the two limits as they are. The key map afterwards is the old one without the key. When
  the key is absent from the key map, the state is returned unchanged. When the key maps to
  an element \<open>a\<close>, that element is taken out of the list, every other element staying in
  it, and the size of \<open>a\<close> leaves the total. A second \<open>removeElement\<close> of the same key,
  right after the first, changes nothing. In a consistent state, which every state reached
  from a new cache is (lemma \<open>lru_inv_reachable\<close>), the result is consistent again, \<open>a\<close>
  was in the list under that key and is in it no more, and a total that was the sum of
  the tracked sizes is so again.
\<close>

theorem removeElement_idempotent:
  "snd (removeElement key c) = []
   \<and> lruElements (fst (removeElement key c)) = lruElements c
   \<and> mMaxSizeSoft (fst (removeElement key c)) = mMaxSizeSoft c
   \<and> mMaxSizeHard (fst (removeElement key c)) = mMaxSizeHard c
   \<and> mMapOfElements (fst (removeElement key c)) = (mMapOfElements c)(key := None)
   \<and> mMapOfElements (fst (removeElement key c)) key = None
   \<and> (mMapOfElements c key = None \<longrightarrow> removeElement key c = (c, []))
   \<and> (\<forall>a. mMapOfElements c key = Some a \<longrightarrow>
          mListOfElements (fst (removeElement key c)) = remove1 a (mListOfElements c)
        \<and> mTotalSize (fst (removeElement key c)) = mTotalSize c - mSize (lruElements c a)
        \<and> (\<forall>b. b \<noteq> a \<longrightarrow>
              (b \<in> set (mListOfElements (fst (removeElement key c))))
               = (b \<in> set (mListOfElements c))))
   \<and> removeElement key (fst (removeElement key c)) = (fst (removeElement key c), [])
   \<and> (lru_inv c \<longrightarrow>
          lru_inv (fst (removeElement key c))
        \<and> (\<forall>a. mMapOfElements c key = Some a \<longrightarrow>
              a \<in> set (mListOfElements c)
            \<and> mPrimaryKey (lruElements c a) = key
            \<and> a \<notin> set (mListOfElements (fst (removeElement key c))))
        \<and> (mTotalSize c = lruTrackedSize c \<longrightarrow>
              mTotalSize (fst (removeElement key c))
              = lruTrackedSize (fst (removeElement key c))))"
proof (cases "mMapOfElements c key")
  case None
  then show ?thesis by (simp add: removeElement_def fun_upd_idem)
next
  case (Some a)
  have r: "removeElement key c =
     (c\<lparr>mListOfElements := remove1 a (mListOfElements c),
        mTotalSize := mTotalSize c - mSize (lruElements c a),
        mMapOfElements := (mMapOfElements c)(key := None)\<rparr>, [])"
    by (simp add: removeElement_def Some)
  have idem: "removeElement key (fst (removeElement key c)) = (fst (removeElement key c), [])"
    by (simp add: r) (simp add: removeElement_def)
  have others: "\<forall>b. b \<noteq> a \<longrightarrow>
      (b \<in> set (remove1 a (mListOfElements c))) = (b \<in> set (mListOfElements c))"
    by (metis in_set_remove1)
  have invpart: "lru_inv (fst (removeElement key c))
        \<and> a \<in> set (mListOfElements c)
        \<and> mPrimaryKey (lruElements c a) = key
        \<and> a \<notin> set (remove1 a (mListOfElements c))
        \<and> (mTotalSize c = lruTrackedSize c \<longrightarrow>
              mTotalSize c - mSize (lruElements c a)
              = sizeOf (lruElements c) (remove1 a (mListOfElements c)))"
    if inv: "lru_inv c"
  proof -
    from inv have km: "keyMapOK (lruElements c) (mListOfElements c) (mMapOfElements c)"
      and d: "distinct (mListOfElements c)"
      by (simp_all add: lru_inv_def)
    from km Some have ain: "a \<in> set (mListOfElements c)"
      and ka: "mPrimaryKey (lruElements c a) = key"
      by (simp_all add: keyMapOK_def)
    from d have "a \<notin> set (remove1 a (mListOfElements c))" by simp
    then show ?thesis
      using lru_inv_removeElement [OF inv, of key] ain ka
      by (simp add: sizeOf_remove1_minus [OF ain] lruTrackedSize_def)
  qed
  show ?thesis
    using idem others invpart by (simp add: r Some lruTrackedSize_def)
qed

theorem removeElement_idempotent_witness:
  "mMapOfElements ex_lru_one_key 2 = None
   \<and> removeElement 2 ex_lru_one_key = (ex_lru_one_key, [])
   \<and> mMapOfElements ex_lru_one_key 1 = Some 0
   \<and> lru_inv ex_lru_one_key
   \<and> mListOfElements ex_lru_one_key = [0]
   \<and> mTotalSize ex_lru_one_key = 10
   \<and> lruTrackedSize ex_lru_one_key = 10
   \<and> mListOfElements (fst (removeElement 1 ex_lru_one_key)) = []
   \<and> mTotalSize (fst (removeElement 1 ex_lru_one_key)) = 0
   \<and> lruTrackedSize (fst (removeElement 1 ex_lru_one_key)) = 0
   \<and> mMapOfElements (fst (removeElement 1 ex_lru_one_key)) 1 = None
   \<and> removeElement 1 (fst (removeElement 1 ex_lru_one_key))
       = (fst (removeElement 1 ex_lru_one_key), [])"
proof -
  have inv: "lru_inv ex_lru_one_key"
    unfolding ex_lru_one_key_def by (rule lru_inv_reachable)
  have e: "mMapOfElements ex_lru_one_key 2 = None"
    "mMapOfElements ex_lru_one_key 1 = Some 0"
    "mListOfElements ex_lru_one_key = [0]"
    "mTotalSize ex_lru_one_key = 10"
    "lruTrackedSize ex_lru_one_key = 10"
    "mSize (lruElements ex_lru_one_key 0) = 10"
    by (simp_all add: ex_lru_one_key_def lev)
  note t1 = removeElement_idempotent [of 2 ex_lru_one_key]
  note t2 = removeElement_idempotent [of 1 ex_lru_one_key]
  have a: "removeElement 2 ex_lru_one_key = (ex_lru_one_key, [])"
    using t1 e(1) by blast
  have l: "mListOfElements (fst (removeElement 1 ex_lru_one_key)) = []"
    and tot: "mTotalSize (fst (removeElement 1 ex_lru_one_key)) = 0"
    using t2 e(2,3,4,6) by auto
  have tr: "lruTrackedSize (fst (removeElement 1 ex_lru_one_key)) = 0"
    using t2 inv e(4,5) tot by auto
  have m: "mMapOfElements (fst (removeElement 1 ex_lru_one_key)) 1 = None"
    and i: "removeElement 1 (fst (removeElement 1 ex_lru_one_key))
       = (fst (removeElement 1 ex_lru_one_key), [])"
    using t2 by blast+
  from e inv a l tot tr m i show ?thesis by simp
qed

section \<open>checkAccessTime\<close>

text \<open>
  C6, as the claim states it, fails: an element is marked and inserted into the
  size-ordered map already when its age is one second short of the threshold. With a
  threshold of 5, the element of key 1, accessed at time 1, is marked by the sweep at
  time 5, when its age is 4.
\<close>

theorem checkAccessTime_threshold_counterexample:
  "listOfElements ex_two_ages = [0, 1]
   \<and> mPrimaryKey (elements ex_two_ages 0) = 1
   \<and> mLastAccessTime (elements ex_two_ages 0) = 1
   \<and> nThresholdInSec ex_two_ages = 5
   \<and> \<not> ((5 :: int64) \<le>s 5 - 1)
   \<and> \<not> markSizeWiseCleanup (elements ex_two_ages 0)
   \<and> markSizeWiseCleanup (elements (checkAccessTime 5 ex_two_ages) 0)
   \<and> mapOfElementsOrderSize (checkAccessTime 5 ex_two_ages)
       = [(\<lparr>nSize = 30, nPrimaryKey = 1\<rparr>, 0)]"
  by (simp add: ex ev)

text \<open>
  C6, amended. In a state reached from a new cache, the sweep at time \<open>now\<close> scans the
  list from the oldest element on, as long as the element is marked already or
  \<open>now - last_access + 1 >= threshold\<close>, and stops at the first element that is neither.
  Every element of the scanned prefix carries the marker afterwards, every other element
  is as it was; the size-ordered map gains one entry (size, key) for each element of the
  prefix that was not marked before, and nothing else; it stays in the order of
  \<open>CompareSizePKPair\<close>; nothing else in the cache changes.
\<close>

theorem checkAccessTime_sweep:
  assumes "c = run ops (new_LRUCacheSizeOrder maxSizeSoft maxSizeHard thresholdInSec cleanScheduleMs)"
  shows "checkAccessTime now c =
           c\<lparr>elements :=
               (\<lambda>a. if a \<in> set (takeWhile (staleOrMarked now (nThresholdInSec c) (elements c))
                                  (listOfElements c))
                    then (elements c a)\<lparr>markSizeWiseCleanup := True\<rparr> else elements c a),
             mapOfElementsOrderSize := mapOfElementsOrderSize (checkAccessTime now c)\<rparr>
         \<and> set (mapOfElementsOrderSize (checkAccessTime now c)) =
             set (mapOfElementsOrderSize c) \<union>
             entryOf (elements c) `
               {a \<in> set (takeWhile (staleOrMarked now (nThresholdInSec c) (elements c))
                           (listOfElements c)).
                \<not> markSizeWiseCleanup (elements c a)}
         \<and> sorted_wrt CompareSizePKPair (map fst (mapOfElementsOrderSize (checkAccessTime now c)))"
proof -
  let ?h = "elements c" and ?l = "listOfElements c" and ?sm = "mapOfElementsOrderSize c"
  let ?sc = "takeWhile (staleOrMarked now (nThresholdInSec c) ?h) ?l"
  let ?as = "filter (\<lambda>a. \<not> markSizeWiseCleanup (?h a)) ?sc"
  have inv: "cache_inv c" unfolding assms by (rule cache_inv_reachable)
  then have d: "distinct ?l" and km: "keyMapOK ?h ?l (mapOfPKWithElement c)"
    and so: "sizeOrderOK ?h ?l ?sm"
    by (simp_all add: cache_inv_def)
  note r = checkAccessTime_closed [OF d, of now]
  have sm': "mapOfElementsOrderSize (checkAccessTime now c) = insertMarked ?h ?as ?sm"
    by (subst r) simp
  have das: "distinct ?as" using d by (simp add: distinct_takeWhile)
  have sub: "set ?as \<subseteq> set ?l" by (auto dest: set_takeWhileD)
  have ins: "set (insertMarked ?h ?as ?sm) = set ?sm \<union> entryOf ?h ` set ?as
         \<and> sorted_wrt CompareSizePKPair (map fst (insertMarked ?h ?as ?sm))"
    using so by (intro insertMarked_set [OF km das sub])
      (auto simp: sizeOrderOK_def entryOK_def entryOf_def prod_eq_iff)
  have 1: "checkAccessTime now c =
           c\<lparr>elements := (\<lambda>a. if a \<in> set ?sc
                    then (elements c a)\<lparr>markSizeWiseCleanup := True\<rparr> else elements c a),
             mapOfElementsOrderSize := mapOfElementsOrderSize (checkAccessTime now c)\<rparr>"
    unfolding sm' by (rule r)
  have 2: "set ?as = {a \<in> set ?sc. \<not> markSizeWiseCleanup (elements c a)}" by auto
  show ?thesis
    using 1 ins unfolding sm' 2 by blast
qed

theorem checkAccessTime_sweep_witness:
  "takeWhile (staleOrMarked 5 (nThresholdInSec ex_two_ages) (elements ex_two_ages))
     (listOfElements ex_two_ages) = [0]
   \<and> set (mapOfElementsOrderSize (checkAccessTime 5 ex_two_ages))
       = {(\<lparr>nSize = 30, nPrimaryKey = 1\<rparr>, 0)}
   \<and> map (\<lambda>a. markSizeWiseCleanup (elements (checkAccessTime 5 ex_two_ages) a)) [0, 1]
       = [True, False]"
proof -
  note t = checkAccessTime_sweep [of ex_two_ages "[Update (\<lambda>_. True) 1 101 1 30,
         Update (\<lambda>_. True) 4 102 2 20]" 100 150 5 10 5, OF ex_two_ages_def]
  have e: "takeWhile (staleOrMarked 5 (nThresholdInSec ex_two_ages) (elements ex_two_ages))
     (listOfElements ex_two_ages) = [0]"
    "mapOfElementsOrderSize ex_two_ages = []"
    "\<not> markSizeWiseCleanup (elements ex_two_ages 0)"
    "\<not> markSizeWiseCleanup (elements ex_two_ages 1)"
    "entryOf (elements ex_two_ages) 0 = (\<lparr>nSize = 30, nPrimaryKey = 1\<rparr>, 0)"
    by (simp_all add: ex ev)
  have m: "markSizeWiseCleanup (elements (checkAccessTime 5 ex_two_ages) a)
      = markSizeWiseCleanup (if a \<in> set [0] then (elements ex_two_ages a)\<lparr>markSizeWiseCleanup := True\<rparr>
          else elements ex_two_ages a)" for a
    by (subst t [THEN conjunct1]) (simp add: e(1))
  have s: "set (mapOfElementsOrderSize (checkAccessTime 5 ex_two_ages))
       = {(\<lparr>nSize = 30, nPrimaryKey = 1\<rparr>, 0)}"
    using t [THEN conjunct2, THEN conjunct1] e by auto
  show ?thesis using e(1,3,4) s by (simp add: m)
qed

section \<open>cleanup\<close>

text \<open>
  \<open>CompareSizePKPair\<close> puts the larger size first and, among equal sizes, the smaller
  key. In a state reached from a new cache, the size-ordered map is in that order and each
  entry carries the size of its element. \<open>cleanup\<close> first goes through all of it in that
  order, whatever the soft limit: \<open>toClean\<close> starts with the objects of the entries whose
  weak pointer locks, the sizes of all entries leave the total, and the map is empty
  afterwards. Only then, from the total so reduced, it pops the \<open>n\<close> oldest elements of
  the list, where \<open>n\<close> is the first count at which the list is used up or the total is no
  longer above the soft limit; of the popped elements only those without the marker (and
  without the protected key) are queued and leave the total. The elements of the drained
  entries are not touched by the drain: they leave the list and the key map only if they
  are among those \<open>n\<close>.
\<close>

lemma cleanup_phases_reachable:
  assumes "c = run ops (new_LRUCacheSizeOrder maxSizeSoft maxSizeHard thresholdInSec cleanScheduleMs)"
  shows "(\<forall>x y. CompareSizePKPair x y =
            (nSize y <s nSize x \<or> nSize x = nSize y \<and> nPrimaryKey x <s nPrimaryKey y))
   \<and> (\<exists>n\<le>length (listOfElements c).
     sorted_wrt CompareSizePKPair (map fst (mapOfElementsOrderSize c))
   \<and> (\<forall>e\<in>set (mapOfElementsOrderSize c).
         nSize (fst e) = mSize (elements c (snd e))
       \<and> markSizeWiseCleanup (elements c (snd e)) \<and> snd e \<in> set (listOfElements c))
   \<and> cleanup alive keyToSaveFromPurge c =
       (c\<lparr>listOfElements := drop n (listOfElements c),
          mapOfPKWithElement :=
            (\<lambda>k. if k \<in> (\<lambda>a. mPrimaryKey (elements c a)) ` set (take n (listOfElements c))
                 then None else mapOfPKWithElement c k),
          nTotalSizeOfCache :=
            nTotalSizeOfCache c
              - sum_list (map (\<lambda>e. nSize (fst e)) (mapOfElementsOrderSize c))
              - sizeOf (elements c)
                  (filter (purgeable keyToSaveFromPurge (elements c)) (take n (listOfElements c))),
          mapOfElementsOrderSize := []\<rparr>,
        lockable alive (elements c) (map snd (mapOfElementsOrderSize c))
          @ lockable alive (elements c)
              (filter (purgeable keyToSaveFromPurge (elements c)) (take n (listOfElements c))))
   \<and> (n = length (listOfElements c)
        \<or> \<not> nSoftLimitInBytes c <s nTotalSizeOfCache (fst (cleanup alive keyToSaveFromPurge c)))
   \<and> (\<forall>j<n. nSoftLimitInBytes c <s
          nTotalSizeOfCache c
            - sum_list (map (\<lambda>e. nSize (fst e)) (mapOfElementsOrderSize c))
            - sizeOf (elements c)
                (filter (purgeable keyToSaveFromPurge (elements c)) (take j (listOfElements c)))))"
  unfolding assms
  by (intro conjI allI cleanup_closed [OF cache_inv_reachable])
    (auto simp: CompareSizePKPair_def)

text \<open>
  C2. The drain does not remove the bookkeeping of a drained entry's element. It empties
  the size-ordered map and takes the sizes out of the total, but the element stays in the
  list and the key map, with its marker, unless the while loop that follows pops it; and
  that loop does not run when the total is not above the soft limit. With limits 20 and 40
  and a threshold of 5, key 1 of size 10 is marked by the sweep at time 9. \<open>cleanup\<close> then
  queues its object 101, brings the total from 10 to 0 and empties the size-ordered map;
  but the list is still \<open>[0]\<close>, key 1 still maps to the element, the element still
  carries the marker, and the tracked sizes sum to 10. With a handle that does not lock,
  nothing is queued and the bookkeeping is left in the same way.
\<close>

theorem cleanup_drain_keeps_element:
  "mapOfElementsOrderSize ex_marked = [(\<lparr>nSize = 10, nPrimaryKey = 1\<rparr>, 0)]
   \<and> listOfElements ex_marked = [0]
   \<and> mapOfPKWithElement ex_marked 1 = Some 0
   \<and> nTotalSizeOfCache ex_marked = 10
   \<and> nSoftLimitInBytes ex_marked = 20
   \<and> snd (cleanup (\<lambda>_. True) None ex_marked) = [101]
   \<and> mapOfElementsOrderSize (fst (cleanup (\<lambda>_. True) None ex_marked)) = []
   \<and> nTotalSizeOfCache (fst (cleanup (\<lambda>_. True) None ex_marked)) = 0
   \<and> listOfElements (fst (cleanup (\<lambda>_. True) None ex_marked)) = [0]
   \<and> mapOfPKWithElement (fst (cleanup (\<lambda>_. True) None ex_marked)) 1 = Some 0
   \<and> markSizeWiseCleanup (elements (fst (cleanup (\<lambda>_. True) None ex_marked)) 0)
   \<and> trackedSize (fst (cleanup (\<lambda>_. True) None ex_marked)) = 10
   \<and> snd (cleanup (\<lambda>_. False) None ex_marked) = []
   \<and> mapOfElementsOrderSize (fst (cleanup (\<lambda>_. False) None ex_marked)) = []
   \<and> nTotalSizeOfCache (fst (cleanup (\<lambda>_. False) None ex_marked)) = 0
   \<and> listOfElements (fst (cleanup (\<lambda>_. False) None ex_marked)) = [0]
   \<and> mapOfPKWithElement (fst (cleanup (\<lambda>_. False) None ex_marked)) 1 = Some 0"
  by (simp add: ex ev trackedSize_def sizeOf_def)

section \<open>updateElement\<close>

text \<open>
  C3, as the claim states it, fails: not every requested size replaces the registration.
  With a hard limit of 40 and key 1 registered with size 10 at time 1, an update of key 1
  with size 50, and one with size \<open>-1\<close> (as a \<open>size_t\<close>, the largest value), leave the
  size at 10, the access time at 1 and the total at 10.
\<close>

theorem updateElement_replaces_counterexample:
  "nHardLimitInBytes ex_one_key = 40
   \<and> mapOfPKWithElement ex_one_key 1 = Some 0
   \<and> mSize (elements ex_one_key 0) = 10
   \<and> mSize (elements (fst (updateElement (\<lambda>_. True) 2 101 1 50 ex_one_key)) 0) = 10
   \<and> mLastAccessTime (elements (fst (updateElement (\<lambda>_. True) 2 101 1 50 ex_one_key)) 0) = 1
   \<and> nTotalSizeOfCache (fst (updateElement (\<lambda>_. True) 2 101 1 50 ex_one_key)) = 10
   \<and> mSize (elements (fst (updateElement (\<lambda>_. True) 2 101 1 (- 1) ex_one_key)) 0) = 10
   \<and> mLastAccessTime (elements (fst (updateElement (\<lambda>_. True) 2 101 1 (- 1) ex_one_key)) 0) = 1
   \<and> nTotalSizeOfCache (fst (updateElement (\<lambda>_. True) 2 101 1 (- 1) ex_one_key)) = 10"
  by (simp add: ex ev size_t_minus_one)

text \<open>
  C3, amended. In a state reached from a new cache, for every key and every requested size
  that passes the guard \<open>size <= hard_limit\<close> (compared unsigned), \<open>updateElement\<close> has
  done this when it leaves its locked block: the key maps to one element \<open>a\<close>, the
  element found for the key or a new one; \<open>a\<close> has the new size, the access time \<open>now\<close>,
  no marker, and the weak pointer it had (the handle passed in, for a new element); no other
  element has changed; \<open>a\<close> is the last of the list, the others keep their order; the
  size-ordered map has lost the entry of \<open>a\<close> and nothing else; the total is the old total,
  less the old size if the key was registered, plus the new size. After the locked block
  \<open>cleanup\<close> runs with the key protected iff the total is above the hard limit.
\<close>

theorem updateElement_admitted:
  assumes "c = run ops (new_LRUCacheSizeOrder maxSizeSoft maxSizeHard thresholdInSec cleanScheduleMs)"
    and "sz \<le> nHardLimitInBytes c"
  shows "\<exists>a. mapOfPKWithElement (updateElement_locked now element key sz c) key = Some a
     \<and> (mapOfPKWithElement c key = None \<and> a \<notin> set (listOfElements c)
          \<or> mapOfPKWithElement c key = Some a)
     \<and> elements (updateElement_locked now element key sz c) a =
         \<lparr>mLastAccessTime = now, mSize = sz,
          mWeakPointerElement =
            (case mapOfPKWithElement c key of None \<Rightarrow> element
             | Some b \<Rightarrow> mWeakPointerElement (elements c b)),
          mPrimaryKey = key, markSizeWiseCleanup = False\<rparr>
     \<and> (\<forall>b. b \<noteq> a \<longrightarrow> elements (updateElement_locked now element key sz c) b = elements c b)
     \<and> listOfElements (updateElement_locked now element key sz c)
         = remove1 a (listOfElements c) @ [a]
     \<and> mapOfPKWithElement (updateElement_locked now element key sz c)
         = (mapOfPKWithElement c)(key \<mapsto> a)
     \<and> mapOfElementsOrderSize (updateElement_locked now element key sz c)
         = filter (\<lambda>e. snd e \<noteq> a) (mapOfElementsOrderSize c)
     \<and> nTotalSizeOfCache (updateElement_locked now element key sz c)
         = nTotalSizeOfCache c
           - (case mapOfPKWithElement c key of None \<Rightarrow> 0 | Some b \<Rightarrow> mSize (elements c b))
           + sz
     \<and> updateElement alive now element key sz c =
         (if nHardLimitInBytes c <s nTotalSizeOfCache (updateElement_locked now element key sz c)
          then cleanup alive (Some key) (updateElement_locked now element key sz c)
          else (updateElement_locked now element key sz c, []))"
proof -
  have inv: "cache_inv c" unfolding assms(1) by (rule cache_inv_reachable)
  have hard: "nHardLimitInBytes (updateElement_locked now element key sz c) = nHardLimitInBytes c"
    by (cases "mapOfPKWithElement c key")
      (simp_all add: updateElement_locked_new updateElement_locked_found)
  have u: "updateElement alive now element key sz c =
         (if nHardLimitInBytes c <s nTotalSizeOfCache (updateElement_locked now element key sz c)
          then cleanup alive (Some key) (updateElement_locked now element key sz c)
          else (updateElement_locked now element key sz c, []))"
    using assms(2) by (simp add: updateElement_def Let_def hard)
  from updateElement_locked_effect [OF inv, of now element key sz] u show ?thesis by blast
qed

theorem updateElement_admitted_witness:
  "(20 :: int64) \<le> nHardLimitInBytes ex_marked
   \<and> mapOfPKWithElement ex_marked 1 = Some 0
   \<and> mapOfElementsOrderSize ex_marked = [(\<lparr>nSize = 10, nPrimaryKey = 1\<rparr>, 0)]
   \<and> markSizeWiseCleanup (elements ex_marked 0)
   \<and> elements (updateElement_locked 12 999 1 20 ex_marked) 0 =
       \<lparr>mLastAccessTime = 12, mSize = 20, mWeakPointerElement = 101, mPrimaryKey = 1,
        markSizeWiseCleanup = False\<rparr>
   \<and> mapOfElementsOrderSize (updateElement_locked 12 999 1 20 ex_marked) = []
   \<and> listOfElements (updateElement_locked 12 999 1 20 ex_marked) = [0]
   \<and> nTotalSizeOfCache (updateElement_locked 12 999 1 20 ex_marked) = 20"
proof -
  have h: "(20 :: int64) \<le> nHardLimitInBytes ex_marked" by (simp add: ex ev)
  note t = updateElement_admitted [of ex_marked "[Update (\<lambda>_. True) 1 101 1 10,
         ThresholdTimeout 9]" 20 40 5 0 20 12 999 1 "\<lambda>_. True",
      OF ex_marked_def h]
  have e: "(20 :: int64) \<le> nHardLimitInBytes ex_marked
   \<and> mapOfPKWithElement ex_marked 1 = Some 0
   \<and> mapOfElementsOrderSize ex_marked = [(\<lparr>nSize = 10, nPrimaryKey = 1\<rparr>, 0)]
   \<and> markSizeWiseCleanup (elements ex_marked 0)
   \<and> elements (updateElement_locked 12 999 1 20 ex_marked) 0 =
       \<lparr>mLastAccessTime = 12, mSize = 20, mWeakPointerElement = 101, mPrimaryKey = 1,
        markSizeWiseCleanup = False\<rparr>
   \<and> mapOfElementsOrderSize (updateElement_locked 12 999 1 20 ex_marked) = []
   \<and> listOfElements (updateElement_locked 12 999 1 20 ex_marked) = [0]
   \<and> nTotalSizeOfCache (updateElement_locked 12 999 1 20 ex_marked) = 20"
    by (simp add: ex ev)
  show ?thesis
    using t
    apply -
    apply (rule e)
    done
qed

text \<open>
  C4, as the claim states it, fails. An element whose size alone exceeds the hard limit is
  not evictable, because it is never admitted: with a hard limit of 40, the update with
  size 50 is refused, the key is not tracked and nothing is cleaned. The statement also
  records what the eviction does when it reaches the protected element: with limits 20 and
  40 and key 1 of size 10 tracked, the update of key 2 with size 40 cleans the object of
  key 1 only, and key 2 is in neither the list nor the key map afterwards.
\<close>

theorem updateElement_protects_key_counterexample:
  "nSoftLimitInBytes ex_one_key = 20
   \<and> nHardLimitInBytes ex_one_key = 40
   \<and> mapOfPKWithElement (fst (updateElement (\<lambda>_. True) 2 102 2 50 ex_one_key)) 2 = None
   \<and> listOfElements (fst (updateElement (\<lambda>_. True) 2 102 2 50 ex_one_key)) = [0]
   \<and> snd (updateElement (\<lambda>_. True) 2 102 2 50 ex_one_key) = []
   \<and> snd (updateElement (\<lambda>_. True) 2 102 2 40 ex_one_key) = [101]
   \<and> listOfElements (fst (updateElement (\<lambda>_. True) 2 102 2 40 ex_one_key)) = []
   \<and> mapOfPKWithElement (fst (updateElement (\<lambda>_. True) 2 102 2 40 ex_one_key)) 2 = None"
  by (simp add: ex ev)

text \<open>
  C4, amended. In a state reached from a new cache, when an update with an admitted size
  leaves its locked block with the total above the hard limit, \<open>cleanup\<close> runs as the next
  step of the same call, with the updated key protected. The updated element \<open>a\<close> is then
  the newest of the list. Every object this \<open>cleanup\<close> queues is the object of a tracked
  element other than \<open>a\<close>: the element \<open>a\<close> itself is neither locked nor queued, so the
  object of \<open>a\<close> is not queued unless another tracked element holds the same object.
  Whenever the list is not empty afterwards, \<open>a\<close> is still its newest element and the key
  still maps to \<open>a\<close>; and the list is not empty afterwards whenever the total, less the
  sizes in the size-ordered map and the sizes of the older elements that carry no marker,
  is not above the soft limit. What becomes of \<open>a\<close> when the loop reaches it is not
  stated here. A requested size for which the guard \<open>size <= _nHardLimitInBytes\<close> is
  false is refused and the call changes nothing; with a hard limit that is not negative,
  that is every size above the hard limit.
\<close>

theorem updateElement_protects_key:
  assumes "c = run ops (new_LRUCacheSizeOrder maxSizeSoft maxSizeHard thresholdInSec cleanScheduleMs)"
    and "sz \<le> nHardLimitInBytes c"
    and "nHardLimitInBytes c <s nTotalSizeOfCache (updateElement_locked now element key sz c)"
  shows "(\<exists>a as.
      mapOfPKWithElement (updateElement_locked now element key sz c) key = Some a
    \<and> last (listOfElements (updateElement_locked now element key sz c)) = a
    \<and> updateElement alive now element key sz c
        = cleanup alive (Some key) (updateElement_locked now element key sz c)
    \<and> snd (updateElement alive now element key sz c)
        = lockable alive (elements (updateElement_locked now element key sz c)) as
    \<and> set as \<subseteq> set (listOfElements (updateElement_locked now element key sz c))
    \<and> a \<notin> set as
    \<and> ((\<forall>b\<in>set (listOfElements (updateElement_locked now element key sz c)). b \<noteq> a \<longrightarrow>
            mWeakPointerElement (elements (updateElement_locked now element key sz c) b)
            \<noteq> mWeakPointerElement (elements (updateElement_locked now element key sz c) a))
         \<longrightarrow> mWeakPointerElement (elements (updateElement_locked now element key sz c) a)
              \<notin> set (snd (updateElement alive now element key sz c)))
    \<and> (listOfElements (fst (updateElement alive now element key sz c)) \<noteq> [] \<longrightarrow>
          last (listOfElements (fst (updateElement alive now element key sz c))) = a
        \<and> mapOfPKWithElement (fst (updateElement alive now element key sz c)) key = Some a)
    \<and> (\<not> nSoftLimitInBytes c <s
            nTotalSizeOfCache (updateElement_locked now element key sz c)
            - sum_list (map (\<lambda>e. nSize (fst e))
                (mapOfElementsOrderSize (updateElement_locked now element key sz c)))
            - sizeOf (elements (updateElement_locked now element key sz c))
                (filter (purgeable (Some key) (elements (updateElement_locked now element key sz c)))
                   (butlast (listOfElements (updateElement_locked now element key sz c))))
         \<longrightarrow> listOfElements (fst (updateElement alive now element key sz c)) \<noteq> []))
   \<and> (\<forall>big. nHardLimitInBytes c < big
            \<or> 0 \<le>s nHardLimitInBytes c \<and> sint (nHardLimitInBytes c) < uint big \<longrightarrow>
         updateElement alive now element key big c = (c, []))"
proof
  let ?c' = "updateElement_locked now element key sz c"
  let ?r = "updateElement alive now element key sz c"
  have inv: "cache_inv c" unfolding assms(1) by (rule cache_inv_reachable)
  from updateElement_protects_key_inv [OF inv assms(2,3), where alive = alive]
  obtain a as where p:
    "mapOfPKWithElement ?c' key = Some a"
    "last (listOfElements ?c') = a"
    "?r = cleanup alive (Some key) ?c'"
    "snd ?r = lockable alive (elements ?c') as"
    "set as \<subseteq> set (listOfElements ?c')"
    "a \<notin> set as"
    and fin: "listOfElements (fst ?r) = []
        \<and> mapOfPKWithElement (fst ?r) key = None
        \<and> nSoftLimitInBytes c <s
            nTotalSizeOfCache ?c'
            - sum_list (map (\<lambda>e. nSize (fst e)) (mapOfElementsOrderSize ?c'))
            - sizeOf (elements ?c')
                (filter (purgeable (Some key) (elements ?c')) (butlast (listOfElements ?c')))
       \<or> listOfElements (fst ?r) \<noteq> []
        \<and> last (listOfElements (fst ?r)) = a
        \<and> mapOfPKWithElement (fst ?r) key = Some a"
    by blast
  have share: "mWeakPointerElement (elements ?c' a) \<notin> set (snd ?r)"
    if other: "\<forall>b\<in>set (listOfElements ?c'). b \<noteq> a \<longrightarrow>
            mWeakPointerElement (elements ?c' b) \<noteq> mWeakPointerElement (elements ?c' a)"
  proof
    assume "mWeakPointerElement (elements ?c' a) \<in> set (snd ?r)"
    then have "mWeakPointerElement (elements ?c' a)
        \<in> (\<lambda>a. mWeakPointerElement (elements ?c' a)) ` set as"
      using lockable_subset [of alive "elements ?c'" as] unfolding p(4) by (rule subsetD [rotated])
    then obtain b where b: "b \<in> set as"
      "mWeakPointerElement (elements ?c' a) = mWeakPointerElement (elements ?c' b)"
      by (rule imageE)
    from b(1) p(5) have bl: "b \<in> set (listOfElements ?c')" by (rule subsetD [rotated])
    from b(1) p(6) have "b \<noteq> a" by auto
    with other bl have "mWeakPointerElement (elements ?c' b) \<noteq> mWeakPointerElement (elements ?c' a)"
      by simp
    with b(2) show False by simp
  qed
  have stay: "last (listOfElements (fst ?r)) = a \<and> mapOfPKWithElement (fst ?r) key = Some a"
    if "listOfElements (fst ?r) \<noteq> []"
    using fin that by simp
  have stop: "listOfElements (fst ?r) \<noteq> []"
    if "\<not> nSoftLimitInBytes c <s
            nTotalSizeOfCache ?c'
            - sum_list (map (\<lambda>e. nSize (fst e)) (mapOfElementsOrderSize ?c'))
            - sizeOf (elements ?c')
                (filter (purgeable (Some key) (elements ?c')) (butlast (listOfElements ?c')))"
    using fin that by simp
  show "\<exists>a as.
      mapOfPKWithElement ?c' key = Some a
    \<and> last (listOfElements ?c') = a
    \<and> ?r = cleanup alive (Some key) ?c'
    \<and> snd ?r = lockable alive (elements ?c') as
    \<and> set as \<subseteq> set (listOfElements ?c')
    \<and> a \<notin> set as
    \<and> ((\<forall>b\<in>set (listOfElements ?c'). b \<noteq> a \<longrightarrow>
            mWeakPointerElement (elements ?c' b) \<noteq> mWeakPointerElement (elements ?c' a))
         \<longrightarrow> mWeakPointerElement (elements ?c' a) \<notin> set (snd ?r))
    \<and> (listOfElements (fst ?r) \<noteq> [] \<longrightarrow>
          last (listOfElements (fst ?r)) = a \<and> mapOfPKWithElement (fst ?r) key = Some a)
    \<and> (\<not> nSoftLimitInBytes c <s
            nTotalSizeOfCache ?c'
            - sum_list (map (\<lambda>e. nSize (fst e)) (mapOfElementsOrderSize ?c'))
            - sizeOf (elements ?c')
                (filter (purgeable (Some key) (elements ?c')) (butlast (listOfElements ?c')))
         \<longrightarrow> listOfElements (fst ?r) \<noteq> [])"
    apply (rule exI [of _ a])
    apply (rule exI [of _ as])
    apply (intro conjI impI)
             apply (rule p(1))
            apply (rule p(2))
           apply (rule p(3))
          apply (rule p(4))
         apply (rule p(5))
        apply (rule p(6))
       apply (erule share)
      apply (erule stay [THEN conjunct1])
     apply (erule stay [THEN conjunct2])
    apply (erule stop)
    done
  show "\<forall>big. nHardLimitInBytes c < big
            \<or> 0 \<le>s nHardLimitInBytes c \<and> sint (nHardLimitInBytes c) < uint big \<longrightarrow>
         updateElement alive now element key big c = (c, [])"
  proof (intro allI impI)
    fix big
    assume "nHardLimitInBytes c < big
            \<or> 0 \<le>s nHardLimitInBytes c \<and> sint (nHardLimitInBytes c) < uint big"
    then have "\<not> big \<le> nHardLimitInBytes c"
      using unsigned_guard_nonneg [of "nHardLimitInBytes c" big] by auto
    then show "updateElement alive now element key big c = (c, [])"
      by (simp add: updateElement_def)
  qed
qed

theorem updateElement_protects_key_witness:
  "(20 :: int64) \<le> nHardLimitInBytes ex_three_keys
   \<and> nHardLimitInBytes ex_three_keys
       <s nTotalSizeOfCache (updateElement_locked 4 104 4 20 ex_three_keys)
   \<and> listOfElements (updateElement_locked 4 104 4 20 ex_three_keys) = [0, 1, 2, 3]
   \<and> map (\<lambda>b. mWeakPointerElement (elements (updateElement_locked 4 104 4 20 ex_three_keys) b))
        [0, 1, 2, 3] = [101, 102, 103, 104]
   \<and> snd (updateElement (\<lambda>_. True) 4 104 4 20 ex_three_keys) = [101, 102, 103]
   \<and> listOfElements (fst (updateElement (\<lambda>_. True) 4 104 4 20 ex_three_keys)) = [3]
   \<and> mapOfPKWithElement (fst (updateElement (\<lambda>_. True) 4 104 4 20 ex_three_keys)) 4 = Some 3
   \<and> nHardLimitInBytes ex_three_keys < 50
   \<and> 0 \<le>s nHardLimitInBytes ex_three_keys
   \<and> sint (nHardLimitInBytes ex_three_keys) < uint (50 :: int64)
   \<and> updateElement (\<lambda>_. True) 4 104 4 50 ex_three_keys = (ex_three_keys, [])"
proof -
  have h1: "(20 :: int64) \<le> nHardLimitInBytes ex_three_keys"
    and h2: "nHardLimitInBytes ex_three_keys
       <s nTotalSizeOfCache (updateElement_locked 4 104 4 20 ex_three_keys)"
    by (simp_all add: ex ev)
  note t = updateElement_protects_key [of ex_three_keys "[Update (\<lambda>_. True) 1 101 1 10,
         Update (\<lambda>_. True) 2 102 2 10,
         Update (\<lambda>_. True) 3 103 3 10]" 20 40 0 0 20 4 104 4 "\<lambda>_. True",
      OF ex_three_keys_def h1 h2]
  have g: "nHardLimitInBytes ex_three_keys < 50"
    "0 \<le>s nHardLimitInBytes ex_three_keys"
    "sint (nHardLimitInBytes ex_three_keys) < uint (50 :: int64)"
    by (simp_all add: ex ev)
  from t g(1) have n: "updateElement (\<lambda>_. True) 4 104 4 50 ex_three_keys = (ex_three_keys, [])"
    by blast
  have e: "listOfElements (updateElement_locked 4 104 4 20 ex_three_keys) = [0, 1, 2, 3]"
    "map (\<lambda>b. mWeakPointerElement (elements (updateElement_locked 4 104 4 20 ex_three_keys) b))
        [0, 1, 2, 3] = [101, 102, 103, 104]"
    "snd (updateElement (\<lambda>_. True) 4 104 4 20 ex_three_keys) = [101, 102, 103]"
    "listOfElements (fst (updateElement (\<lambda>_. True) 4 104 4 20 ex_three_keys)) = [3]"
    "mapOfPKWithElement (fst (updateElement (\<lambda>_. True) 4 104 4 20 ex_three_keys)) 4 = Some 3"
    by (simp_all add: ex ev)
  show ?thesis
    apply (intro conjI)
              apply (rule h1)
             apply (rule h2)
            apply (rule e(1))
           apply (rule e(2))
          apply (rule e(3))
         apply (rule e(4))
        apply (rule e(5))
       apply (rule g(1))
      apply (rule g(2))
     apply (rule g(3))
    apply (rule n)
    done
qed

section \<open>Threshold zero\<close>

text \<open>
  C8. A cache constructed with threshold 0 has no threshold thread, so a timeout of that
  thread never happens and \<open>checkAccessTime\<close> never runs. In every state reached from such
  a cache no tracked element carries the marker and the size-ordered map is empty, also
  after every \<open>cleanup\<close>, whose phase 1 therefore does nothing: \<open>cleanup\<close> changes the state and
  queues the objects exactly as \<open>LRUCache::cleanup\<close> does on the same fields, by recency
  alone. An update of an admitted size does exactly what \<open>LRUCache::updateElement\<close> does.
\<close>

theorem threshold_zero_is_plain_lru:
  assumes "c = run ops (new_LRUCacheSizeOrder maxSizeSoft maxSizeHard 0 cleanScheduleMs)"
  shows "\<not> ThresholdThread c
   \<and> exec (ThresholdTimeout t) c = (c, [])
   \<and> mapOfElementsOrderSize c = []
   \<and> (\<forall>a\<in>set (listOfElements c). \<not> markSizeWiseCleanup (elements c a))
   \<and> mapOfElementsOrderSize (fst (cleanup alive keyToSaveFromPurge c)) = []
   \<and> (asLRUCache (fst (cleanup alive keyToSaveFromPurge c)),
       snd (cleanup alive keyToSaveFromPurge c))
      = lruCleanup alive keyToSaveFromPurge (asLRUCache c)
   \<and> (sz \<le> nHardLimitInBytes c \<longrightarrow>
        (asLRUCache (fst (updateElement alive now element key sz c)),
         snd (updateElement alive now element key sz c))
        = lruUpdateElement alive now element key sz (asLRUCache c))"
proof -
  have inv: "cache_inv c" unfolding assms by (rule cache_inv_reachable)
  have p: "\<not> ThresholdThread c" "mapOfElementsOrderSize c = []"
    "\<forall>a\<in>set (listOfElements c). \<not> markSizeWiseCleanup (elements c a)"
    unfolding assms using plain_run [of ops maxSizeSoft maxSizeHard cleanScheduleMs] by simp_all
  have 1: "exec (ThresholdTimeout t) c = (c, [])" using p(1) by simp
  have 2: "mapOfElementsOrderSize (fst (cleanup alive keyToSaveFromPurge c)) = []"
    using cleanup_frame [of alive keyToSaveFromPurge c] by simp
  have 3: "(asLRUCache (fst (cleanup alive keyToSaveFromPurge c)),
       snd (cleanup alive keyToSaveFromPurge c))
      = lruCleanup alive keyToSaveFromPurge (asLRUCache c)"
    by (rule plain_cleanup_eq [OF p(2,3)])
  have 4: "(asLRUCache (fst (updateElement alive now element key sz c)),
         snd (updateElement alive now element key sz c))
        = lruUpdateElement alive now element key sz (asLRUCache c)"
    if adm: "sz \<le> nHardLimitInBytes c"
  proof -
    let ?c' = "updateElement_locked now element key sz c"
    note l = plain_updateElement_locked [OF p, of now element key sz]
    have a: "asLRUCache ?c' = lruUpdateElement_locked now element key sz (asLRUCache c)"
      by (rule plain_updateElement_locked_eq [OF inv p(2,3)])
    have cl: "(asLRUCache (fst (cleanup alive (Some key) ?c')), snd (cleanup alive (Some key) ?c'))
        = lruCleanup alive (Some key) (asLRUCache ?c')"
      using l by (intro plain_cleanup_eq) simp_all
    have h: "mMaxSizeHard (asLRUCache ?c') = nHardLimitInBytes ?c'"
      "mTotalSize (asLRUCache ?c') = nTotalSizeOfCache ?c'"
      by (simp_all add: asLRUCache_def)
    show ?thesis
    proof (cases "nHardLimitInBytes ?c' <s nTotalSizeOfCache ?c'")
      case True
      then show ?thesis
        using adm cl h by (simp add: updateElement_def lruUpdateElement_def Let_def flip: a)
    next
      case False
      then show ?thesis
        using adm h by (simp add: updateElement_def lruUpdateElement_def Let_def flip: a)
    qed
  qed
  from p 1 2 3 4 show ?thesis by simp
qed

theorem threshold_zero_is_plain_lru_witness:
  "nThresholdInSec ex_pure_lru = 0
   \<and> listOfElements ex_pure_lru = [2, 3, 1, 4]
   \<and> mapOfElementsOrderSize ex_pure_lru = []
   \<and> snd (lruCleanup (\<lambda>_. True) None (asLRUCache ex_pure_lru)) = [103, 104]
   \<and> mListOfElements (fst (lruCleanup (\<lambda>_. True) None (asLRUCache ex_pure_lru))) = [1, 4]
   \<and> snd (cleanup (\<lambda>_. True) None ex_pure_lru) = [103, 104]
   \<and> listOfElements (fst (cleanup (\<lambda>_. True) None ex_pure_lru)) = [1, 4]"
proof -
  note t = threshold_zero_is_plain_lru [of ex_pure_lru "[Update (\<lambda>_. True) 1 101 1 10,
         Update (\<lambda>_. True) 2 102 2 10,
         Update (\<lambda>_. True) 3 103 3 10,
         CleanerTimeout (\<lambda>_. True),
         Update (\<lambda>_. True) 4 104 4 10,
         Update (\<lambda>_. True) 5 102 2 10,
         Update (\<lambda>_. True) 6 105 5 10]" 20 40 1,
      OF ex_pure_lru_def]
  have sm: "mapOfElementsOrderSize ex_pure_lru = []"
    by (rule t [THEN conjunct2, THEN conjunct2, THEN conjunct1])
  have eq: "(asLRUCache (fst (cleanup (\<lambda>_. True) None ex_pure_lru)),
       snd (cleanup (\<lambda>_. True) None ex_pure_lru))
      = lruCleanup (\<lambda>_. True) None (asLRUCache ex_pure_lru)"
    by (rule t [THEN conjunct2, THEN conjunct2, THEN conjunct2, THEN conjunct2,
          THEN conjunct2, THEN conjunct1])
  have e: "nThresholdInSec ex_pure_lru = 0"
    "listOfElements ex_pure_lru = [2, 3, 1, 4]"
    "snd (lruCleanup (\<lambda>_. True) None (asLRUCache ex_pure_lru)) = [103, 104]"
    "mListOfElements (fst (lruCleanup (\<lambda>_. True) None (asLRUCache ex_pure_lru))) = [1, 4]"
    by (simp_all add: ex ev asLRUCache_def lruCleanup_def)
  have q: "snd (cleanup (\<lambda>_. True) None ex_pure_lru) = [103, 104]"
    using eq e(3) by (metis snd_conv)
  have l: "listOfElements (fst (cleanup (\<lambda>_. True) None ex_pure_lru)) = [1, 4]"
  proof -
    have "listOfElements (fst (cleanup (\<lambda>_. True) None ex_pure_lru))
        = mListOfElements (asLRUCache (fst (cleanup (\<lambda>_. True) None ex_pure_lru)))"
      by (simp add: asLRUCache_def)
    also have "\<dots> = mListOfElements (fst (lruCleanup (\<lambda>_. True) None (asLRUCache ex_pure_lru)))"
      using eq by (metis fst_conv)
    finally show ?thesis using e(4) by simp
  qed
  from e sm q l show ?thesis by simp
qed

section \<open>The total and the tracked sizes\<close>

text \<open>
  C1 fails on the code. With limits 20 and 40, after the updates of key 1 with size 10 and
  of key 2 with size 40, the eviction triggered by the second update has popped both
  elements, the protected one without taking its size out of the total: nothing is tracked
  and the total is 40. With limits 100 and 150 and threshold 5, after the update of key 1
  with size 30 at time 1, the sweep at time 5 and a \<open>cleanup\<close>, the drain has taken the size
  out of the total and left the element in the list and the key map: 30 is tracked and the
  total is 0. In \<open>LRUCache\<close>, with limits 20 and 40, the update of key 1 with size 50 leaves
  nothing tracked and the total at 50.
\<close>

theorem total_size_not_tracked_sum:
  "listOfElements ex_protected = []
   \<and> mapOfPKWithElement ex_protected 1 = None
   \<and> mapOfPKWithElement ex_protected 2 = None
   \<and> trackedSize ex_protected = 0
   \<and> nTotalSizeOfCache ex_protected = 40
   \<and> listOfElements ex_drained = [0]
   \<and> mapOfPKWithElement ex_drained 1 = Some 0
   \<and> trackedSize ex_drained = 30
   \<and> nTotalSizeOfCache ex_drained = 0
   \<and> mListOfElements (fst (lruUpdateElement (\<lambda>_. True) 1 101 1 50 (new_LRUCache 20 40 0))) = []
   \<and> lruTrackedSize (fst (lruUpdateElement (\<lambda>_. True) 1 101 1 50 (new_LRUCache 20 40 0))) = 0
   \<and> mTotalSize (fst (lruUpdateElement (\<lambda>_. True) 1 101 1 50 (new_LRUCache 20 40 0))) = 50"
  by (simp add: ex ev trackedSize_def lruTrackedSize_def sizeOf_def lruUpdateElement_def
      lruUpdateElement_locked_def lruCleanup_def new_LRUCache_def)

section \<open>The lock during cleanup\<close>

text \<open>
  C5 fails on the code. With limits 20 and 40 and keys 1, 2, 3 of size 10 tracked,
  \<open>LRUCacheSizeOrder::cleanup\<close> calls \<open>cleanup()\<close> on the object of key 1 between taking and
  releasing the mutex, while \<open>LRUCache::cleanup\<close> on the same fields calls it after the
  release.
\<close>

theorem cleanup_called_under_lock:
  "cleanup_events (\<lambda>_. True) None ex_three_keys = [Lock, CallCleanup 101, Unlock]
   \<and> lruCleanup_events (\<lambda>_. True) None (asLRUCache ex_three_keys)
       = [Lock, Unlock, CallCleanup 101]"
  by (simp add: ex ev cleanup_events_def lruCleanup_events_def lruCleanup_def asLRUCache_def)

section \<open>The constructor\<close>

text \<open>
  C7, as the claim states it, fails: the constructor with soft limit 40 and hard limit 20,
  and the one with the limits \<open>-5\<close> and \<open>-1\<close>, produce a cache with these limits, and the
  first one accepts an update.
\<close>

theorem constructor_accepts_counterexample:
  "nSoftLimitInBytes (new_LRUCacheSizeOrder 40 20 0 0) = 40
   \<and> nHardLimitInBytes (new_LRUCacheSizeOrder 40 20 0 0) = 20
   \<and> nHardLimitInBytes (new_LRUCacheSizeOrder 40 20 0 0)
       <s nSoftLimitInBytes (new_LRUCacheSizeOrder 40 20 0 0)
   \<and> listOfElements (fst (updateElement (\<lambda>_. True) 1 101 1 15 (new_LRUCacheSizeOrder 40 20 0 0))) = [0]
   \<and> nSoftLimitInBytes (new_LRUCacheSizeOrder (- 5) (- 1) 0 0) = - 5
   \<and> nHardLimitInBytes (new_LRUCacheSizeOrder (- 5) (- 1) 0 0) = - 1
   \<and> nHardLimitInBytes (new_LRUCacheSizeOrder (- 5) (- 1) 0 0) <s 0"
  by (simp add: ev)

text \<open>
  C7, amended. The constructor does not fail and validates nothing: for all arguments,
  also a hard limit below the soft limit and negative limits, it produces a cache that
  holds the limits and the threshold as given, tracks nothing and has total 0.
\<close>

theorem constructor_never_fails:
  "nSoftLimitInBytes (new_LRUCacheSizeOrder maxSizeSoft maxSizeHard thresholdInSec cleanScheduleMs)
     = maxSizeSoft
   \<and> nHardLimitInBytes (new_LRUCacheSizeOrder maxSizeSoft maxSizeHard thresholdInSec cleanScheduleMs)
     = maxSizeHard
   \<and> nThresholdInSec (new_LRUCacheSizeOrder maxSizeSoft maxSizeHard thresholdInSec cleanScheduleMs)
     = thresholdInSec
   \<and> listOfElements (new_LRUCacheSizeOrder maxSizeSoft maxSizeHard thresholdInSec cleanScheduleMs)
     = []
   \<and> mapOfPKWithElement (new_LRUCacheSizeOrder maxSizeSoft maxSizeHard thresholdInSec cleanScheduleMs)
     = Map.empty
   \<and> mapOfElementsOrderSize (new_LRUCacheSizeOrder maxSizeSoft maxSizeHard thresholdInSec cleanScheduleMs)
     = []
   \<and> nTotalSizeOfCache (new_LRUCacheSizeOrder maxSizeSoft maxSizeHard thresholdInSec cleanScheduleMs)
     = 0"
  by (simp add: new_LRUCacheSizeOrder_def)

end
